theory Spec2Isabelle
  imports Main "HOL-Library.Sublist" "HOL-Library.Word"
begin

section \<open>The site crawler\<close>

subsection \<open>Data model\<close>

text \<open>
  URLs are compared by the crawler only for equality and with \<open>startsWith\<close>, so they are
  plain character lists. The text fields are sequences of UTF-16 code units, because the
  filter pass classifies code units as white space.
\<close>

type_synonym jstext = "16 word list"

record PageData =
  links :: "string list"
  images :: "string list"
  textContent :: jstext
  htmlContent :: jstext

record PageRecord = PageData +
  url :: string

text \<open>What the browser tab shows after a successful navigation.\<close>

record document =
  anchors :: "string list"
  imgs :: "string list"
  innerText :: jstext
  outerHTML :: jstext

text \<open>
  The environment of one crawl: \<open>load w u\<close> is the document the tab holds after
  \<open>page.goto(u)\<close> and \<open>waitForSelector\<close>, or \<open>None\<close> when one of them throws;
  \<open>clock w k\<close> is what the \<open>k\<close>-th call of \<open>Date.now()\<close> returns (milliseconds).
\<close>

record world =
  load :: "string \<Rightarrow> document option"
  clock :: "nat \<Rightarrow> int"
  browser_launches :: bool

datatype error = FetchError | LaunchError | TypeError | ReferenceError

datatype outcome = Returned | Thrown

text \<open>
  The instrumented log of a crawl: \<open>Check b\<close> is a reading of the clock against the
  time limit that found it reached (\<open>b\<close>) or not, \<open>Fetch u\<close> is a call of
  \<open>scrapePageData\<close> (its first statement prints \<open>Scraping: u\<close>), \<open>Follow p l\<close> is the
  call \<open>crawl(l)\<close> made from the loop over the links of page \<open>p\<close>.
\<close>

datatype event = Check bool | Fetch string | Follow string string

record crawl_state =
  visited :: "string list"
  allData :: "PageRecord list"
  reads :: nat
  trace :: "event list"

subsection \<open>Operations\<close>

text \<open>\<open>Set.prototype.add\<close>: a JavaScript Set keeps insertion order and no duplicates.\<close>

definition set_add :: "'a \<Rightarrow> 'a list \<Rightarrow> 'a list" where
  "set_add x xs = (if x \<in> set xs then xs else xs @ [x])"

text \<open>
  \<open>(Date.now() - startTime) / 1000 >= timeLimit\<close>. \<open>Date.now()\<close> is a whole number of
  milliseconds and the time limit comes from \<open>parseInt\<close>, a whole number of seconds; on
  such numbers the comparison of the quotient is the comparison below.
\<close>

definition time_limit_reached :: "int \<Rightarrow> int \<Rightarrow> int \<Rightarrow> bool" where
  "time_limit_reached startTime timeLimit t = (timeLimit * 1000 \<le> t - startTime)"

definition log_event :: "event \<Rightarrow> crawl_state \<Rightarrow> crawl_state" where
  "log_event e s = s\<lparr>trace := trace s @ [e]\<rparr>"

definition mark_visited :: "string \<Rightarrow> crawl_state \<Rightarrow> crawl_state" where
  "mark_visited u s = s\<lparr>visited := set_add u (visited s)\<rparr>"

definition push_record :: "PageRecord \<Rightarrow> crawl_state \<Rightarrow> crawl_state" where
  "push_record r s = s\<lparr>allData := allData s @ [r]\<rparr>"

definition date_now :: "world \<Rightarrow> crawl_state \<Rightarrow> int \<times> crawl_state" where
  "date_now w s = (clock w (reads s), s\<lparr>reads := Suc (reads s)\<rparr>)"

definition scrapePageData :: "world \<Rightarrow> string \<Rightarrow> PageData option" where
  "scrapePageData w u =
     (case load w u of
        None \<Rightarrow> None
      | Some d \<Rightarrow> Some \<lparr>links = filter (\<lambda>href. href \<noteq> []) (anchors d),
                        images = filter (\<lambda>src. src \<noteq> []) (imgs d),
                        textContent = innerText d,
                        htmlContent = outerHTML d\<rparr>)"

definition page_record :: "string \<Rightarrow> PageData \<Rightarrow> PageRecord" where
  "page_record u pageData =
     \<lparr>links = links pageData, images = images pageData,
      textContent = textContent pageData, htmlContent = htmlContent pageData, url = u\<rparr>"

text \<open>
  The \<open>for (const link of pageData.links)\<close> loop of \<open>crawl\<close>; \<open>self\<close> is the recursive
  call. A \<open>return\<close> in the loop leaves \<open>crawl\<close>; an exception of the recursive call
  leaves it too, since nothing catches it.
\<close>

fun crawl_links ::
  "(string \<Rightarrow> crawl_state \<Rightarrow> (outcome \<times> crawl_state) option) \<Rightarrow> world \<Rightarrow> int \<Rightarrow> int \<Rightarrow>
   string \<Rightarrow> string list \<Rightarrow> crawl_state \<Rightarrow> (outcome \<times> crawl_state) option" where
  "crawl_links self w startTime timeLimit u [] s = Some (Returned, s)"
| "crawl_links self w startTime timeLimit u (link # rest) s =
     (case date_now w s of (t, s1) \<Rightarrow>
        if time_limit_reached startTime timeLimit t
        then Some (Returned, log_event (Check True) s1)
        else if prefix u link
        then (case self link (log_event (Follow u link) (log_event (Check False) s1)) of
                None \<Rightarrow> None
              | Some (Thrown, s2) \<Rightarrow> Some (Thrown, s2)
              | Some (Returned, s2) \<Rightarrow> crawl_links self w startTime timeLimit u rest s2)
        else crawl_links self w startTime timeLimit u rest (log_event (Check False) s1))"

text \<open>
  \<open>crawl\<close>, the inner function of \<open>crawlSite\<close>. Its parameter \<open>url\<close> shadows the
  parameter of \<open>crawlSite\<close>, so \<open>link.startsWith(url)\<close> tests the link against the page
  being crawled. The first argument bounds the depth of the recursion; \<open>None\<close> means
  that the bound was reached.
\<close>

fun crawl ::
  "nat \<Rightarrow> world \<Rightarrow> int \<Rightarrow> int \<Rightarrow> string \<Rightarrow> crawl_state \<Rightarrow> (outcome \<times> crawl_state) option" where
  "crawl 0 w startTime timeLimit u s = None"
| "crawl (Suc fuel) w startTime timeLimit u s =
     (if u \<in> set (visited s) then Some (Returned, s)
      else (case date_now w s of (t, s1) \<Rightarrow>
        if time_limit_reached startTime timeLimit t
        then Some (Returned, log_event (Check True) s1)
        else (let s2 = log_event (Fetch u) (mark_visited u (log_event (Check False) s1))
              in (case scrapePageData w u of
                    None \<Rightarrow> Some (Thrown, s2)
                  | Some pageData \<Rightarrow>
                      crawl_links (crawl fuel w startTime timeLimit) w startTime timeLimit u
                        (links pageData) (push_record (page_record u pageData) s2)))))"

text \<open>
  \<open>crawlSite\<close>: the state of a crawl starts with the clock read once, for \<open>startTime\<close>.
  The result is the error rethrown or \<open>allData\<close>, together with the final state.
  Opening and closing the tab are taken to succeed.
\<close>

definition crawl_init :: crawl_state where
  "crawl_init = \<lparr>visited = [], allData = [], reads = 1, trace = []\<rparr>"

definition crawlSite ::
  "nat \<Rightarrow> world \<Rightarrow> string \<Rightarrow> int \<Rightarrow> ((error + PageRecord list) \<times> crawl_state) option" where
  "crawlSite fuel w u timeLimit =
     (case crawl fuel w (clock w 0) timeLimit u crawl_init of
        None \<Rightarrow> None
      | Some (Thrown, s) \<Rightarrow> Some (Inl FetchError, s)
      | Some (Returned, s) \<Rightarrow> Some (Inr (allData s), s))"

definition fetched :: "event list \<Rightarrow> string list" where
  "fetched tr = concat (map (\<lambda>e. case e of Fetch u \<Rightarrow> [u] | _ \<Rightarrow> []) tr)"

text \<open>
  \<open>scrapperFunc\<close>: launches the browser, runs \<open>crawlSite\<close>, logs and rethrows whatever is
  thrown, and closes the browser in any case.
\<close>

definition scrapperFunc ::
  "nat \<Rightarrow> world \<Rightarrow> string \<Rightarrow> int \<Rightarrow> ((error + PageRecord list) \<times> crawl_state) option" where
  "scrapperFunc fuel w u timeLimit =
     (if browser_launches w then crawlSite fuel w u timeLimit
      else Some (Inl LaunchError, crawl_init))"

subsection \<open>The filter pass\<close>

text \<open>The code units matched by \<open>\\s\<close> and removed by \<open>trim\<close>.\<close>

definition is_white_space :: "16 word \<Rightarrow> bool" where
  "is_white_space c =
     (c \<in> {0x9, 0xA, 0xB, 0xC, 0xD, 0x20, 0xA0, 0x1680, 0x2028, 0x2029, 0x202F, 0x205F,
            0x3000, 0xFEFF} \<or> (0x2000 \<le> c \<and> c \<le> 0x200A))"

text \<open>\<open>replace(/\\s+/g, ' ')\<close>: every maximal run of white space becomes one space.\<close>

function collapse_ws :: "jstext \<Rightarrow> jstext" where
  "collapse_ws [] = []"
| "collapse_ws (c # cs) =
     (if is_white_space c then 0x20 # collapse_ws (dropWhile is_white_space cs)
      else c # collapse_ws cs)"
  by pat_completeness auto
termination
  by (relation "measure length") (auto simp: less_Suc_eq_le length_dropWhile_le)

definition trim :: "jstext \<Rightarrow> jstext" where
  "trim cs = rev (dropWhile is_white_space (rev (dropWhile is_white_space cs)))"

text \<open>\<open>Array.from(new Set(xs))\<close>: the elements are added one by one, in order.\<close>

definition new_Set :: "'a list \<Rightarrow> 'a list" where
  "new_Set xs = foldl (\<lambda>acc x. set_add x acc) [] xs"

definition filterData :: "'a PageData_scheme \<Rightarrow> PageData" where
  "filterData data =
     \<lparr>links = new_Set (links data), images = new_Set (images data),
      textContent = trim (collapse_ws (textContent data)),
      htmlContent = htmlContent data\<rparr>"

subsection \<open>The command-line program of the crawler\<close>

text \<open>
  A JavaScript number that is a whole number, or \<open>NaN\<close>: the results of \<open>parseInt\<close>
  (without the rounding of large values to a double).
\<close>

datatype jsnum = NaN | Num int

definition is_ws_char :: "char \<Rightarrow> bool" where
  "is_ws_char c = ((of_char c :: nat) \<in> {9, 10, 11, 12, 13, 32, 160})"

definition digit_of :: "char \<Rightarrow> nat option" where
  "digit_of c =
     (let n = of_char c :: nat
      in if 48 \<le> n \<and> n \<le> 57 then Some (n - 48)
         else if 97 \<le> n \<and> n \<le> 122 then Some (n - 87)
         else if 65 \<le> n \<and> n \<le> 90 then Some (n - 55)
         else None)"

definition is_digit_in :: "nat \<Rightarrow> char \<Rightarrow> bool" where
  "is_digit_in radix c = (case digit_of c of None \<Rightarrow> False | Some d \<Rightarrow> d < radix)"

definition digits_value :: "nat \<Rightarrow> string \<Rightarrow> int" where
  "digits_value radix ds =
     foldl (\<lambda>acc c. acc * int radix + (case digit_of c of None \<Rightarrow> 0 | Some d \<Rightarrow> int d)) 0 ds"

definition parse_digits :: "nat \<Rightarrow> bool \<Rightarrow> string \<Rightarrow> jsnum" where
  "parse_digits radix neg s =
     (let z = takeWhile (is_digit_in radix) s
      in if z = [] then NaN else Num ((if neg then - 1 else 1) * digits_value radix z))"

definition strip_sign :: "string \<Rightarrow> bool \<times> string" where
  "strip_sign s =
     (case s of
        [] \<Rightarrow> (False, [])
      | c # r \<Rightarrow> if c = CHR ''-'' then (True, r) else if c = CHR ''+'' then (False, r) else (False, s))"


text \<open>\<open>parseInt(x)\<close> on a string: a prefix \<open>0x\<close> or \<open>0X\<close> selects radix 16.\<close>

definition parseInt :: "string \<Rightarrow> jsnum" where
  "parseInt x =
     (case strip_sign (dropWhile is_ws_char x) of (neg, s) \<Rightarrow>
        if prefix ''0x'' s \<or> prefix ''0X'' s then parse_digits 16 neg (drop 2 s)
        else parse_digits 10 neg s)"






section \<open>The typed-site scraper\<close>

subsection \<open>Relevant links\<close>

definition includes_str :: "string \<Rightarrow> string \<Rightarrow> bool" where
  "includes_str s t = sublist t s"

definition matches_somewhere :: "(string \<Rightarrow> bool) \<Rightarrow> string \<Rightarrow> bool" where
  "matches_somewhere at s = list_ex at (suffixes s)"

definition is_decimal_digit :: "char \<Rightarrow> bool" where
  "is_decimal_digit c = (48 \<le> (of_char c :: nat) \<and> (of_char c :: nat) \<le> 57)"

definition is_upper_or_digit :: "char \<Rightarrow> bool" where
  "is_upper_or_digit c = (is_decimal_digit c \<or> (65 \<le> (of_char c :: nat) \<and> (of_char c :: nat) \<le> 90))"

text \<open>\<open>/\\d{4}\\/\\d{2}\\/\\d{2}/\<close> at the start of \<open>s\<close>.\<close>

definition date_path_at :: "string \<Rightarrow> bool" where
  "date_path_at s =
     (10 \<le> length s \<and> list_all is_decimal_digit (take 4 s) \<and> s ! 4 = CHR ''/'' \<and>
      list_all is_decimal_digit (take 2 (drop 5 s)) \<and> s ! 7 = CHR ''/'' \<and>
      list_all is_decimal_digit (take 2 (drop 8 s)))"

text \<open>\<open>/\\/dp\\/[A-Z0-9]+/\<close> at the start of \<open>s\<close>.\<close>

definition dp_at :: "string \<Rightarrow> bool" where
  "dp_at s = (prefix ''/dp/'' s \<and> (case drop 4 s of [] \<Rightarrow> False | c # cs \<Rightarrow> is_upper_or_digit c))"

definition relevant :: "string \<Rightarrow> string \<Rightarrow> bool" where
  "relevant type href =
     (if type = ''news''
      then includes_str href ''/article/'' \<or> includes_str href ''/story/'' \<or> includes_str href ''/news/'' \<or>
           matches_somewhere date_path_at href
      else if type = ''ecommerce''
      then includes_str href ''/product/'' \<or> includes_str href ''/item/'' \<or> includes_str href ''/p/'' \<or>
           includes_str href ''product-detail'' \<or> matches_somewhere dp_at href
      else if type = ''weather''
      then includes_str href ''/weather/'' \<or> includes_str href ''/forecast/'' \<or>
           includes_str href ''current-weather''
      else False)"

text \<open>
  \<open>getRelevantLinks\<close>, from the \<open>href\<close>s of the anchors of the page. For a type that is
  none of the three, \<open>links\<close> stays undefined and the Set built from it is empty.
\<close>

definition getRelevantLinks :: "string list \<Rightarrow> string \<Rightarrow> string list" where
  "getRelevantLinks page_hrefs type =
     (if type = ''news'' \<or> type = ''ecommerce'' \<or> type = ''weather''
      then new_Set (filter (relevant type) page_hrefs)
      else new_Set [])"

subsection \<open>Pagination and the scraping loop\<close>

definition js_add :: "jsnum \<Rightarrow> jsnum \<Rightarrow> jsnum" where
  "js_add a b = (case (a, b) of (Num x, Num y) \<Rightarrow> Num (x + y) | _ \<Rightarrow> NaN)"

definition js_mul :: "jsnum \<Rightarrow> jsnum \<Rightarrow> jsnum" where
  "js_mul a b = (case (a, b) of (Num x, Num y) \<Rightarrow> Num (x * y) | _ \<Rightarrow> NaN)"

text \<open>\<open>Array.prototype.slice\<close>: \<open>NaN\<close> counts as 0, a negative index counts from the end.\<close>

definition to_integer :: "jsnum \<Rightarrow> int" where
  "to_integer n = (case n of NaN \<Rightarrow> 0 | Num k \<Rightarrow> k)"

definition relative_index :: "nat \<Rightarrow> int \<Rightarrow> nat" where
  "relative_index len k = (if k < 0 then nat (max (int len + k) 0) else min (nat k) len)"

definition js_slice :: "'a list \<Rightarrow> jsnum \<Rightarrow> jsnum \<Rightarrow> 'a list" where
  "js_slice xs start stop =
     (let k = relative_index (length xs) (to_integer start);
          final = relative_index (length xs) (to_integer stop)
      in take (final - k) (drop k xs))"

text \<open>
  The pages a run meets: \<open>goto site u timeout\<close> tells whether \<open>page.goto\<close> returns,
  \<open>hrefs site u\<close> are the \<open>href\<close>s of the anchors of the page at \<open>u\<close>, and the three
  extractors give the item read from the page at a URL, or \<open>None\<close> when they throw.
\<close>

record 'i site =
  launches :: bool
  goto :: "string \<Rightarrow> jsnum \<Rightarrow> bool"
  hrefs :: "string \<Rightarrow> string list"
  extractArticleData :: "string \<Rightarrow> 'i option"
  extractProductData :: "string \<Rightarrow> 'i option"
  extractWeatherData :: "string \<Rightarrow> 'i option"

record pagination =
  limit :: jsnum
  offset :: jsnum
  count :: nat
  total_links :: nat

record 'i scrape_output =
  websiteType :: string
  pagination :: pagination
  data :: "'i list"

text \<open>The body of the \<open>try\<close> inside the loop: \<open>None\<close> when it throws.\<close>

definition scrape_item :: "'i site \<Rightarrow> string \<Rightarrow> string \<Rightarrow> 'i option" where
  "scrape_item site type link =
     (if goto site link (Num 30000)
      then (if type = ''news'' then extractArticleData site link
            else if type = ''ecommerce'' then extractProductData site link
            else extractWeatherData site link)
      else None)"

text \<open>
  The loop over \<open>paginatedLinks\<close>, on the pair of \<open>items\<close> and of the URLs navigated to
  so far.
\<close>

fun scrape_items ::
  "'i site \<Rightarrow> string \<Rightarrow> string list \<Rightarrow> 'i list \<times> string list \<Rightarrow> 'i list \<times> string list" where
  "scrape_items site type [] acc = acc"
| "scrape_items site type (link # rest) (items, navigated) =
     (case scrape_item site type link of
        Some itemData \<Rightarrow> scrape_items site type rest (items @ [itemData], navigated @ [link])
      | None \<Rightarrow> scrape_items site type rest (items, navigated @ [link]))"

text \<open>
  The \<open>try\<close> block of \<open>scrapePage\<close> in the command-line program, up to the output: the
  result is \<open>None\<close> when the first navigation throws.
\<close>

definition scrapePage_try ::
  "'i site \<Rightarrow> string \<Rightarrow> string \<Rightarrow> jsnum \<Rightarrow> jsnum \<Rightarrow> jsnum \<Rightarrow> 'i scrape_output option \<times> string list" where
  "scrapePage_try site u type timeLimit lim off =
     (if \<not> goto site u (js_mul timeLimit (Num 1000)) then (None, [u])
      else (let uniqueLinks = getRelevantLinks (hrefs site u) type;
                paginatedLinks = js_slice uniqueLinks off (js_add off lim)
            in (case scrape_items site type paginatedLinks ([], [u]) of
                  (items, navigated) \<Rightarrow>
                    (Some \<lparr>websiteType = type,
                           pagination = \<lparr>limit = lim, offset = off, count = length items,
                                         total_links = length uniqueLinks\<rparr>,
                           data = items\<rparr>, navigated))))"

record 'i typed_run =
  returned :: "error + 'i scrape_output option"
  saved :: "((string \<times> jsnum \<times> jsnum) \<times> 'i scrape_output) option"
  navigations :: "string list"

text \<open>
  \<open>scrapePage\<close> of the command-line program: the output is also written to the file named
  after the type, the offset and the limit; an exception in the \<open>try\<close> is logged and
  the function returns undefined.
\<close>

definition scrapePage ::
  "'i site \<Rightarrow> string \<Rightarrow> string \<Rightarrow> jsnum \<Rightarrow> jsnum \<Rightarrow> jsnum \<Rightarrow> 'i typed_run" where
  "scrapePage site u type timeLimit lim off =
     (if \<not> launches site then \<lparr>returned = Inl LaunchError, saved = None, navigations = []\<rparr>
      else (case scrapePage_try site u type timeLimit lim off of
              (None, navigated) \<Rightarrow>
                \<lparr>returned = Inr None, saved = None, navigations = navigated\<rparr>
            | (Some out, navigated) \<Rightarrow>
                \<lparr>returned = Inr (Some out), saved = Some ((type, off, lim), out),
                 navigations = navigated\<rparr>))"

text \<open>
  \<open>scrapePage\<close> of the HTTP server. Its file neither defines nor imports
  \<open>getRelevantLinks\<close> (nor the three extractors), so after the first \<open>page.goto\<close> has
  returned the call of \<open>getRelevantLinks\<close> throws a ReferenceError inside the \<open>try\<close>;
  the \<open>catch\<close> logs the exception and throws it again. The function never reaches its
  \<open>return\<close>, whatever the limit and the offset.
\<close>

definition scrapePage_api ::
  "'i site \<Rightarrow> string \<Rightarrow> string \<Rightarrow> jsnum \<Rightarrow> jsnum \<Rightarrow> jsnum \<Rightarrow> 'i typed_run" where
  "scrapePage_api site u type timeLimit lim off =
     (if \<not> launches site then \<lparr>returned = Inl LaunchError, saved = None, navigations = []\<rparr>
      else if \<not> goto site u (js_mul timeLimit (Num 1000))
      then \<lparr>returned = Inl FetchError, saved = None, navigations = [u]\<rparr>
      else \<lparr>returned = Inl ReferenceError, saved = None, navigations = [u]\<rparr>)"

subsection \<open>The HTTP route\<close>

text \<open>
  The values a field of the JSON body can have, with whole numbers for the numbers; a
  missing field is undefined.
\<close>

datatype jsval = JUndefined | JNull | JBool bool | JNumber int | JString string

definition truthy :: "jsval \<Rightarrow> bool" where
  "truthy v =
     (case v of
        JUndefined \<Rightarrow> False
      | JNull \<Rightarrow> False
      | JBool b \<Rightarrow> b
      | JNumber n \<Rightarrow> n \<noteq> 0
      | JString t \<Rightarrow> t \<noteq> [])"

text \<open>\<open>parseInt\<close> of a value: it is first turned into a string.\<close>

definition parseInt_val :: "jsval \<Rightarrow> jsnum" where
  "parseInt_val v = (case v of JNumber n \<Rightarrow> Num n | JString t \<Rightarrow> parseInt t | _ \<Rightarrow> NaN)"

definition lower_char :: "char \<Rightarrow> char" where
  "lower_char c =
     (let n = of_char c :: nat
      in if (65 \<le> n \<and> n \<le> 90) \<or> (192 \<le> n \<and> n \<le> 222 \<and> n \<noteq> 215) then char_of (n + 32) else c)"

definition toLowerCase :: "string \<Rightarrow> string" where
  "toLowerCase t = map lower_char t"

definition WEBSITE_TYPES :: "string list" where
  "WEBSITE_TYPES = [''news'', ''ecommerce'', ''weather'']"

definition DEFAULT_LIMIT :: int where
  "DEFAULT_LIMIT = 100"

record 'i http_result =
  status :: "nat option"
  sent :: "'i scrape_output option"
  fetches :: "string list"
  browser_started :: bool

definition respond :: "nat \<Rightarrow> 'i http_result" where
  "respond code = \<lparr>status = Some code, sent = None, fetches = [], browser_started = False\<rparr>"

text \<open>
  The handler of \<open>POST /scrape\<close> on the parsed body. \<open>status = None\<close> means that the
  handler threw before it answered: \<open>toLowerCase\<close> is not a function of a value that is
  not a string. \<open>page.goto\<close> throws on a URL that is not a string.
\<close>

definition scrape_route :: "'i site \<Rightarrow> (string \<Rightarrow> jsval) \<Rightarrow> 'i http_result" where
  "scrape_route site body =
     (let u = body ''url''; type = body ''websiteType''; timeLimit = body ''timeLimit'';
          lim = (case body ''limit'' of JUndefined \<Rightarrow> JNumber DEFAULT_LIMIT | v \<Rightarrow> v);
          off = (case body ''offset'' of JUndefined \<Rightarrow> JNumber 0 | v \<Rightarrow> v)
      in if \<not> truthy u \<or> \<not> truthy type \<or> \<not> truthy timeLimit then respond 400
         else (case type of
                 JString t \<Rightarrow>
                   if toLowerCase t \<notin> set WEBSITE_TYPES then respond 400
                   else (case u of
                           JString us \<Rightarrow>
                             (let run = scrapePage_api site us (toLowerCase t) (parseInt_val timeLimit)
                                          (parseInt_val lim) (parseInt_val off)
                              in (case returned run of
                                    Inr (Some out) \<Rightarrow>
                                      \<lparr>status = Some 200, sent = Some out,
                                       fetches = navigations run, browser_started = launches site\<rparr>
                                  | _ \<Rightarrow>
                                      \<lparr>status = Some 500, sent = None,
                                       fetches = navigations run, browser_started = launches site\<rparr>))
                         | _ \<Rightarrow>
                             \<lparr>status = Some 500, sent = None, fetches = [],
                              browser_started = launches site\<rparr>)
               | _ \<Rightarrow> \<lparr>status = None, sent = None, fetches = [], browser_started = False\<rparr>))"

section \<open>Notions the properties are stated with\<close>

subsection \<open>Time\<close>

text \<open>The time limit is reached at no reading of the clock.\<close>

definition never_reached :: "world \<Rightarrow> int \<Rightarrow> bool" where
  "never_reached w lim = (\<forall>k. \<not> time_limit_reached (clock w 0) lim (clock w k))"

text \<open>Later readings of the clock are not smaller.\<close>

definition monotone_clock :: "world \<Rightarrow> bool" where
  "monotone_clock w = (\<forall>i j. i \<le> j \<longrightarrow> clock w i \<le> clock w j)"

subsection \<open>Depth-first pre-order\<close>

text \<open>The links of a page that pass the test of the loop, in the order of the page.\<close>

definition children :: "world \<Rightarrow> string \<Rightarrow> string list" where
  "children w u =
     (case scrapePageData w u of None \<Rightarrow> [] | Some pd \<Rightarrow> filter (prefix u) (links pd))"

text \<open>
  The specification of the order, with an explicit stack of nodes still to visit:
  \<open>dfs_preorder ch V stack order\<close> holds when \<open>order\<close> lists the nodes first visited from
  \<open>stack\<close>, the nodes of \<open>V\<close> being visited already. A new node is listed before its
  children, and its children stand on the stack before its later siblings.
\<close>

inductive dfs_preorder ::
  "(string \<Rightarrow> string list) \<Rightarrow> string set \<Rightarrow> string list \<Rightarrow> string list \<Rightarrow> bool"
  for ch :: "string \<Rightarrow> string list" where
  finished: "dfs_preorder ch V [] []"
| seen: "u \<in> V \<Longrightarrow> dfs_preorder ch V stack order \<Longrightarrow> dfs_preorder ch V (u # stack) order"
| visit: "u \<notin> V \<Longrightarrow> dfs_preorder ch (insert u V) (ch u @ stack) order \<Longrightarrow>
          dfs_preorder ch V (u # stack) (u # order)"

code_pred (modes: i \<Rightarrow> i \<Rightarrow> i \<Rightarrow> o \<Rightarrow> bool, i \<Rightarrow> i \<Rightarrow> i \<Rightarrow> i \<Rightarrow> bool) dfs_preorder .

subsection \<open>Cleaned text\<close>

text \<open>
  The specification of the cleaned text: the words of a text are its maximal runs of code
  units that are not white space, in order, and the cleaned text is the words with one
  space between two neighbours.
\<close>

function words_of :: "jstext \<Rightarrow> jstext list" where
  "words_of [] = []"
| "words_of (c # cs) =
     (if is_white_space c then words_of cs
      else (c # takeWhile (\<lambda>x. \<not> is_white_space x) cs) #
           words_of (dropWhile (\<lambda>x. \<not> is_white_space x) cs))"
  by pat_completeness auto
termination
  by (relation "measure length") (auto simp: less_Suc_eq_le length_dropWhile_le)

text \<open>The text without the white space at its end.\<close>

definition rtrim :: "jstext \<Rightarrow> jstext" where
  "rtrim cs = rev (dropWhile is_white_space (rev cs))"

fun join_words :: "jstext list \<Rightarrow> jstext" where
  "join_words [] = []"
| "join_words [w] = w"
| "join_words (w # v # vs) = w @ 0x20 # join_words (v # vs)"

definition no_ws_pair :: "16 word \<Rightarrow> 16 word \<Rightarrow> bool" where
  "no_ws_pair a b = (\<not> (is_white_space a \<and> is_white_space b))"

text \<open>
  Every white-space code unit is a space, no two of them are adjacent, and the text
  neither starts nor ends with one.
\<close>

definition clean_text :: "jstext \<Rightarrow> bool" where
  "clean_text t =
     ((\<forall>c \<in> set t. is_white_space c \<longrightarrow> c = 0x20) \<and> successively no_ws_pair t \<and>
      (t = [] \<or> (\<not> is_white_space (hd t) \<and> \<not> is_white_space (last t))))"

subsection \<open>Invariants of the crawl\<close>

text \<open>The log, the records and the visited set only grow; the clock is only read.\<close>

definition grows :: "outcome \<Rightarrow> crawl_state \<Rightarrow> crawl_state \<Rightarrow> bool" where
  "grows r s s' =
     ((\<exists>tr. trace s' = trace s @ tr) \<and> (\<exists>ds. allData s' = allData s @ ds) \<and>
      set (visited s) \<subseteq> set (visited s') \<and> reads s \<le> reads s')"

definition once_inv :: "crawl_state \<Rightarrow> bool" where
  "once_inv s =
     (distinct (visited s) \<and> distinct (fetched (trace s)) \<and>
      set (fetched (trace s)) \<subseteq> set (visited s) \<and> distinct (map url (allData s)) \<and>
      set (map url (allData s)) \<subseteq> set (fetched (trace s)))"

definition once_step :: "outcome \<Rightarrow> crawl_state \<Rightarrow> crawl_state \<Rightarrow> bool" where
  "once_step r s s' =
     (once_inv s \<longrightarrow> once_inv s' \<and> set (visited s) \<subseteq> set (visited s') \<and>
        (\<exists>new. fetched (trace s') = fetched (trace s) @ new \<and> set new \<inter> set (visited s) = {}))"

definition throw_spec :: "world \<Rightarrow> outcome \<Rightarrow> crawl_state \<Rightarrow> crawl_state \<Rightarrow> bool" where
  "throw_spec w r s s' =
     (\<exists>tr. trace s' = trace s @ tr \<and>
        (case r of
           Thrown \<Rightarrow> \<exists>tr' u. tr = tr' @ [Fetch u] \<and> scrapePageData w u = None
         | Returned \<Rightarrow> \<forall>u \<in> set (fetched tr). scrapePageData w u \<noteq> None))"

definition scoped :: "string \<Rightarrow> crawl_state \<Rightarrow> crawl_state \<Rightarrow> bool" where
  "scoped u s s' =
     (\<exists>tr. trace s' = trace s @ tr \<and> (\<forall>p l. Follow p l \<in> set tr \<longrightarrow> prefix u p \<and> prefix p l))"

definition all_followed :: "crawl_state \<Rightarrow> crawl_state \<Rightarrow> bool" where
  "all_followed s s' =
     (\<exists>ds tr. allData s' = allData s @ ds \<and> trace s' = trace s @ tr \<and>
        (\<forall>d \<in> set ds. \<forall>l \<in> set (links d).
           prefix (url d) l \<longrightarrow> Follow (url d) l \<in> set (trace s')))"

definition pre_step :: "world \<Rightarrow> string list \<Rightarrow> crawl_state \<Rightarrow> crawl_state \<Rightarrow> bool" where
  "pre_step w todo s s' =
     (\<exists>ds. allData s' = allData s @ ds \<and>
        (\<forall>stack order. dfs_preorder (children w) (set (visited s')) stack order \<longrightarrow>
           dfs_preorder (children w) (set (visited s)) (todo @ stack) (map url ds @ order)))"

text \<open>Every record is the page that loading its URL gives.\<close>

definition records_loaded :: "world \<Rightarrow> crawl_state \<Rightarrow> bool" where
  "records_loaded w s =
     (\<forall>d \<in> set (allData s). \<exists>pd. scrapePageData w (url d) = Some pd \<and> d = page_record (url d) pd)"

definition keeps_loaded :: "world \<Rightarrow> outcome \<Rightarrow> crawl_state \<Rightarrow> crawl_state \<Rightarrow> bool" where
  "keeps_loaded w r s s' = (records_loaded w s \<longrightarrow> records_loaded w s')"

text \<open>Every fetch that gave a page has its record.\<close>

definition fetches_recorded :: "world \<Rightarrow> crawl_state \<Rightarrow> bool" where
  "fetches_recorded w s =
     (\<forall>u \<in> set (fetched (trace s)). \<forall>pd. scrapePageData w u = Some pd \<longrightarrow>
        page_record u pd \<in> set (allData s))"

definition keeps_recorded :: "world \<Rightarrow> outcome \<Rightarrow> crawl_state \<Rightarrow> crawl_state \<Rightarrow> bool" where
  "keeps_recorded w r s s' =
     (fetches_recorded w s \<longrightarrow> fetches_recorded w s' \<and> (\<exists>ds. allData s' = allData s @ ds))"

text \<open>
  Two consecutive events of the log: a fetch follows a check that found the limit not
  reached, and a check that found it reached is followed by a check.
\<close>

definition step_ok :: "event \<Rightarrow> event \<Rightarrow> bool" where
  "step_ok a b =
     (((\<exists>u. b = Fetch u) \<longrightarrow> a = Check False) \<and> (a = Check True \<longrightarrow> (\<exists>c. b = Check c)))"

definition checked_trace :: "event list \<Rightarrow> bool" where
  "checked_trace tr = ((tr = [] \<or> (\<forall>u. hd tr \<noteq> Fetch u)) \<and> successively step_ok tr)"

definition keeps_checked :: "outcome \<Rightarrow> crawl_state \<Rightarrow> crawl_state \<Rightarrow> bool" where
  "keeps_checked r s s' = (checked_trace (trace s) \<longrightarrow> checked_trace (trace s'))"

definition expiry_final :: "event list \<Rightarrow> bool" where
  "expiry_final tr = (\<forall>pre post. tr = pre @ Check True # post \<longrightarrow> set post \<subseteq> {Check True})"

definition expiry_inv :: "world \<Rightarrow> int \<Rightarrow> int \<Rightarrow> crawl_state \<Rightarrow> bool" where
  "expiry_inv w st lim s =
     (expiry_final (trace s) \<and>
      (Check True \<in> set (trace s) \<longrightarrow> (\<exists>k<reads s. time_limit_reached st lim (clock w k))))"

definition keeps_expiry ::
  "world \<Rightarrow> int \<Rightarrow> int \<Rightarrow> outcome \<Rightarrow> crawl_state \<Rightarrow> crawl_state \<Rightarrow> bool" where
  "keeps_expiry w st lim r s s' = (expiry_inv w st lim s \<longrightarrow> expiry_inv w st lim s')"

section \<open>Example inputs\<close>

text \<open>A document with the given anchors and nothing else.\<close>

definition page :: "string list \<Rightarrow> document" where
  "page hs = \<lparr>anchors = hs, imgs = [], innerText = [], outerHTML = []\<rparr>"

definition no_data :: "string list \<Rightarrow> PageData" where
  "no_data ls = \<lparr>links = ls, images = [], textContent = [], htmlContent = []\<rparr>"

text \<open>
  The link graph with edges from A to B and C and from B to D, each child below its
  parent; the clock stands still.
\<close>

definition demo_web :: world where
  "demo_web =
     \<lparr>load = (\<lambda>u. if u = ''A'' then Some (page [''A/B'', ''A/C''])
                  else if u = ''A/B'' then Some (page [''A/B/D''])
                  else if u = ''A/C'' \<or> u = ''A/B/D'' then Some (page [])
                  else None),
      clock = (\<lambda>k. 0), browser_launches = True\<rparr>"

definition demo_pages :: "PageRecord list" where
  "demo_pages =
     [page_record ''A'' (no_data [''A/B'', ''A/C'']), page_record ''A/B'' (no_data [''A/B/D'']),
      page_record ''A/B/D'' (no_data []), page_record ''A/C'' (no_data [])]"

definition demo_final :: crawl_state where
  "demo_final =
     \<lparr>visited = [''A'', ''A/B'', ''A/B/D'', ''A/C''], allData = demo_pages, reads = 8,
      trace = [Check False, Fetch ''A'', Check False, Follow ''A'' ''A/B'', Check False,
               Fetch ''A/B'', Check False, Follow ''A/B'' ''A/B/D'', Check False,
               Fetch ''A/B/D'', Check False, Follow ''A'' ''A/C'', Check False, Fetch ''A/C'']\<rparr>"

text \<open>The same pages while the clock advances by one second at each reading.\<close>

definition ticking_web :: world where
  "ticking_web = demo_web\<lparr>clock := (\<lambda>k. 1000 * int k)\<rparr>"

definition ticking_final :: crawl_state where
  "ticking_final =
     \<lparr>visited = [''A''], allData = [page_record ''A'' (no_data [''A/B'', ''A/C''])], reads = 5,
      trace = [Check False, Fetch ''A'', Check False, Follow ''A'' ''A/B'', Check True,
               Check True]\<rparr>"

text \<open>
  The same pages with a clock that is set back: its third reading after the start is
  five seconds ahead of all the others.
\<close>

definition back_web :: world where
  "back_web = demo_web\<lparr>clock := (\<lambda>k. if k = 3 then 5000 else 0)\<rparr>"

definition back_final :: crawl_state where
  "back_final =
     \<lparr>visited = [''A'', ''A/C''],
      allData = [page_record ''A'' (no_data [''A/B'', ''A/C'']), page_record ''A/C'' (no_data [])],
      reads = 6,
      trace = [Check False, Fetch ''A'', Check False, Follow ''A'' ''A/B'', Check True,
               Check False, Follow ''A'' ''A/C'', Check False, Fetch ''A/C'']\<rparr>"


text \<open>The seed and the links of the scope example; the second page links to a third.\<close>

definition scope_web :: world where
  "scope_web =
     \<lparr>load = (\<lambda>u. if u = ''https://x.com/a''
                  then Some (page [''https://x.com/a/b'', ''https://x.com/other'',
                                   ''https://y.com/a''])
                  else if u = ''https://x.com/a/b'' then Some (page [''https://x.com/a/c''])
                  else Some (page [])),
      clock = (\<lambda>k. 0), browser_launches = True\<rparr>"

definition scope_pages :: "PageRecord list" where
  "scope_pages =
     [page_record ''https://x.com/a''
        (no_data [''https://x.com/a/b'', ''https://x.com/other'', ''https://y.com/a'']),
      page_record ''https://x.com/a/b'' (no_data [''https://x.com/a/c''])]"

definition scope_final :: crawl_state where
  "scope_final =
     \<lparr>visited = [''https://x.com/a'', ''https://x.com/a/b''], allData = scope_pages, reads = 7,
      trace = [Check False, Fetch ''https://x.com/a'', Check False,
               Follow ''https://x.com/a'' ''https://x.com/a/b'', Check False,
               Fetch ''https://x.com/a/b'', Check False, Check False, Check False]\<rparr>"

text \<open>The page A links to B and C, and loading B fails.\<close>

definition failing_web :: world where
  "failing_web =
     \<lparr>load = (\<lambda>u. if u = ''A'' then Some (page [''A/B'', ''A/C''])
                  else if u = ''A/C'' then Some (page [])
                  else None),
      clock = (\<lambda>k. 0), browser_launches = True\<rparr>"

definition failing_final :: crawl_state where
  "failing_final =
     \<lparr>visited = [''A'', ''A/B''], allData = [page_record ''A'' (no_data [''A/B'', ''A/C''])],
      reads = 4,
      trace = [Check False, Fetch ''A'', Check False, Follow ''A'' ''A/B'', Check False,
               Fetch ''A/B'']\<rparr>"

text \<open>A page whose links and text need the filter pass.\<close>

definition untidy_page :: PageData where
  "untidy_page =
     \<lparr>links = [''b'', ''a'', ''b'', ''c'', ''a''], images = [''i'', ''i''],
      textContent = [0x20, 0x9, 0x41, 0x20, 0xA, 0x2003, 0x42, 0x20], htmlContent = [0x3C]\<rparr>"

text \<open>
  A news site: five anchors on the front page, three distinct article links among them;
  each article is its URL, and a navigation fails only for a string that is no URL.
\<close>

definition news_site :: "string site" where
  "news_site =
     \<lparr>launches = True, goto = (\<lambda>u t. u \<noteq> ''not a url''),
      hrefs = (\<lambda>u. [''https://n.com/news/1'', ''https://n.com/about'', ''https://n.com/news/2'',
                    ''https://n.com/news/1'', ''https://n.com/news/3'']),
      extractArticleData = (\<lambda>u. Some u), extractProductData = (\<lambda>u. None),
      extractWeatherData = (\<lambda>u. None)\<rparr>"

definition paged_output :: "string scrape_output" where
  "paged_output =
     \<lparr>websiteType = ''news'',
      pagination = \<lparr>limit = Num 2, offset = Num 1, count = 2, total_links = 3\<rparr>,
      data = [''https://n.com/news/2'', ''https://n.com/news/3'']\<rparr>"

definition negative_limit_output :: "string scrape_output" where
  "negative_limit_output =
     \<lparr>websiteType = ''news'',
      pagination = \<lparr>limit = Num (- 1), offset = Num 0, count = 2, total_links = 3\<rparr>,
      data = [''https://n.com/news/1'', ''https://n.com/news/2'']\<rparr>"

definition request :: "jsval \<Rightarrow> jsval \<Rightarrow> jsval \<Rightarrow> string \<Rightarrow> jsval" where
  "request u type timeLimit key =
     (if key = ''url'' then u else if key = ''websiteType'' then type
      else if key = ''timeLimit'' then timeLimit else JUndefined)"

section \<open>Proofs: the crawler\<close>

subsection \<open>Basic facts\<close>

lemma fetched_append [simp]: "fetched (xs @ ys) = fetched xs @ fetched ys"
  by (simp add: fetched_def)

lemma fetched_simps [simp]: "fetched [] = []" "fetched (Check b # es) = fetched es"
  "fetched (Fetch u # es) = u # fetched es"  "fetched (Follow p l # es) = fetched es"
  by (simp_all add: fetched_def)

lemma state_simps [simp]:
  "visited (log_event e s) = visited s" "allData (log_event e s) = allData s"
  "reads (log_event e s) = reads s" "trace (log_event e s) = trace s @ [e]"
  "visited (mark_visited u s) = set_add u (visited s)" "allData (mark_visited u s) = allData s"
  "reads (mark_visited u s) = reads s" "trace (mark_visited u s) = trace s"
  "visited (push_record r s) = visited s" "allData (push_record r s) = allData s @ [r]"
  "reads (push_record r s) = reads s" "trace (push_record r s) = trace s"
  "visited (snd (date_now w s)) = visited s" "allData (snd (date_now w s)) = allData s"
  "reads (snd (date_now w s)) = Suc (reads s)" "trace (snd (date_now w s)) = trace s"
  "fst (date_now w s) = clock w (reads s)"
  by (simp_all add: log_event_def mark_visited_def push_record_def date_now_def)

lemma crawl_links_rule:
  assumes refl: "\<And>s. Q Returned s s"
    and trans: "\<And>r s s' s''. Q Returned s s' \<Longrightarrow> Q r s' s'' \<Longrightarrow> Q r s s''"
    and stop: "\<And>s. time_limit_reached st lim (clock w (reads s)) \<Longrightarrow>
                 Q Returned s (log_event (Check True) (snd (date_now w s)))"
    and skip: "\<And>s. \<not> time_limit_reached st lim (clock w (reads s)) \<Longrightarrow>
                 Q Returned s (log_event (Check False) (snd (date_now w s)))"
    and follow: "\<And>s p l. \<not> time_limit_reached st lim (clock w (reads s)) \<Longrightarrow> prefix p l \<Longrightarrow>
                 Q Returned s (log_event (Follow p l) (log_event (Check False) (snd (date_now w s))))"
    and self: "\<And>l s r s'. self l s = Some (r, s') \<Longrightarrow> Q r s s'"
  shows "crawl_links self w st lim u ls s = Some (r, s') \<Longrightarrow> Q r s s'"
proof (induction ls arbitrary: s)
  case Nil
  then show ?case by (simp add: refl)
next
  case (Cons l ls)
  obtain t s1 where dn: "date_now w s = (t, s1)" by (cases "date_now w s")
  then have t: "t = clock w (reads s)" and s1: "s1 = snd (date_now w s)"
    by (simp_all add: date_now_def)
  show ?case
  proof (cases "time_limit_reached st lim t")
    case True
    with Cons.prems dn have "r = Returned" "s' = log_event (Check True) s1" by auto
    with stop True t s1 show ?thesis by simp
  next
    case nr: False
    show ?thesis
    proof (cases "prefix u l")
      case False
      with Cons.prems dn nr
      have "crawl_links self w st lim u ls (log_event (Check False) s1) = Some (r, s')" by simp
      from Cons.IH [OF this] skip [of s] nr t s1 show ?thesis by (auto intro: trans)
    next
      case True
      let ?s2 = "log_event (Follow u l) (log_event (Check False) s1)"
      have q2: "Q Returned s ?s2" using follow [of s u l] nr t s1 True by simp
      from Cons.prems dn nr True obtain r3 s3 where rec: "self l ?s2 = Some (r3, s3)"
        by (auto split: option.splits)
      show ?thesis
      proof (cases r3)
        case Thrown
        with Cons.prems dn nr True rec have "r = Thrown" "s' = s3" by auto
        with self [OF rec] Thrown q2 show ?thesis by (auto intro: trans)
      next
        case Returned
        with Cons.prems dn nr True rec
        have "crawl_links self w st lim u ls s3 = Some (r, s')" by simp
        from Cons.IH [OF this] self [OF rec] Returned q2 show ?thesis by (blast intro: trans)
      qed
    qed
  qed
qed

lemma crawl_rule:
  assumes refl: "\<And>s. Q Returned s s"
    and trans: "\<And>r s s' s''. Q Returned s s' \<Longrightarrow> Q r s' s'' \<Longrightarrow> Q r s s''"
    and stop: "\<And>s. time_limit_reached st lim (clock w (reads s)) \<Longrightarrow>
                 Q Returned s (log_event (Check True) (snd (date_now w s)))"
    and skip: "\<And>s. \<not> time_limit_reached st lim (clock w (reads s)) \<Longrightarrow>
                 Q Returned s (log_event (Check False) (snd (date_now w s)))"
    and follow: "\<And>s p l. \<not> time_limit_reached st lim (clock w (reads s)) \<Longrightarrow> prefix p l \<Longrightarrow>
                 Q Returned s (log_event (Follow p l) (log_event (Check False) (snd (date_now w s))))"
    and fail: "\<And>s u. u \<notin> set (visited s) \<Longrightarrow> \<not> time_limit_reached st lim (clock w (reads s)) \<Longrightarrow>
                 scrapePageData w u = None \<Longrightarrow>
                 Q Thrown s (log_event (Fetch u) (mark_visited u
                   (log_event (Check False) (snd (date_now w s)))))"
    and fetch: "\<And>s u pd. u \<notin> set (visited s) \<Longrightarrow> \<not> time_limit_reached st lim (clock w (reads s)) \<Longrightarrow>
                 scrapePageData w u = Some pd \<Longrightarrow>
                 Q Returned s (push_record (page_record u pd) (log_event (Fetch u) (mark_visited u
                   (log_event (Check False) (snd (date_now w s))))))"
  shows "crawl fuel w st lim u s = Some (r, s') \<Longrightarrow> Q r s s'"
proof (induction fuel arbitrary: u s r s')
  case 0
  then show ?case by simp
next
  case (Suc fuel)
  obtain t s1 where dn: "date_now w s = (t, s1)" by (cases "date_now w s")
  then have t: "t = clock w (reads s)" and s1: "s1 = snd (date_now w s)"
    by (simp_all add: date_now_def)
  show ?case
  proof (cases "u \<in> set (visited s)")
    case True
    with Suc.prems show ?thesis by (simp add: refl)
  next
    case nv: False
    show ?thesis
    proof (cases "time_limit_reached st lim t")
      case True
      with Suc.prems dn nv have "r = Returned" "s' = log_event (Check True) s1" by auto
      with stop True t s1 show ?thesis by simp
    next
      case nr: False
      let ?s2 = "log_event (Fetch u) (mark_visited u (log_event (Check False) s1))"
      show ?thesis
      proof (cases "scrapePageData w u")
        case None
        with Suc.prems dn nv nr have "r = Thrown" "s' = ?s2" by auto
        with fail [of u s] nv nr None t s1 show ?thesis by simp
      next
        case (Some pd)
        with Suc.prems dn nv nr
        have loop: "crawl_links (crawl fuel w st lim) w st lim u (links pd)
                      (push_record (page_record u pd) ?s2) = Some (r, s')" by simp
        have "Q r (push_record (page_record u pd) ?s2) s'"
          by (rule crawl_links_rule [where Q = Q, OF refl trans stop skip follow Suc.IH loop])
        moreover have "Q Returned s (push_record (page_record u pd) ?s2)"
          using fetch [of u s pd] nv nr Some t s1 by simp
        ultimately show ?thesis by (rule trans [rotated])
      qed
    qed
  qed
qed


lemma url_page_record [simp]: "url (page_record u pd) = u"
  by (simp add: page_record_def)

lemma links_page_record [simp]: "links (page_record u pd) = links pd"
  by (simp add: page_record_def)

lemma set_set_add [simp]: "set (set_add x xs) = insert x (set xs)"
  by (auto simp: set_add_def)

lemma distinct_set_add [simp]: "distinct (set_add x xs) = distinct xs"
  by (auto simp: set_add_def)

text \<open>
  The steps of \<open>crawl\<close> with the branches of the two checks taken.
\<close>

lemma crawl_links_Cons_unreached:
  "\<not> time_limit_reached st lim (clock w (reads s)) \<Longrightarrow>
   crawl_links self w st lim u (l # ls) s =
     (if prefix u l
      then (case self l (log_event (Follow u l) (log_event (Check False) (snd (date_now w s)))) of
              None \<Rightarrow> None
            | Some (Thrown, s2) \<Rightarrow> Some (Thrown, s2)
            | Some (Returned, s2) \<Rightarrow> crawl_links self w st lim u ls s2)
      else crawl_links self w st lim u ls (log_event (Check False) (snd (date_now w s))))"
  by (simp add: date_now_def)

lemma crawl_Suc_unreached:
  "u \<notin> set (visited s) \<Longrightarrow> \<not> time_limit_reached st lim (clock w (reads s)) \<Longrightarrow>
   crawl (Suc fuel) w st lim u s =
     (case scrapePageData w u of
        None \<Rightarrow> Some (Thrown, log_event (Fetch u) (mark_visited u
                  (log_event (Check False) (snd (date_now w s)))))
      | Some pd \<Rightarrow> crawl_links (crawl fuel w st lim) w st lim u (links pd)
          (push_record (page_record u pd) (log_event (Fetch u) (mark_visited u
                  (log_event (Check False) (snd (date_now w s)))))))"
  by (simp add: date_now_def Let_def split: option.splits)

lemma crawlSite_crawl:
  assumes "crawlSite fuel w seed lim = Some (res, s)"
  obtains r where "crawl fuel w (clock w 0) lim seed crawl_init = Some (r, s)"
    and "res = (case r of Thrown \<Rightarrow> Inl FetchError | Returned \<Rightarrow> Inr (allData s))"
  using assms by (auto simp: crawlSite_def split: option.splits outcome.splits)

lemma crawl_grows: "crawl fuel w st lim u s = Some (r, s') \<Longrightarrow> grows r s s'"
proof (rule crawl_rule [where Q = grows])
  show "\<And>r s s' s''. grows Returned s s' \<Longrightarrow> grows r s' s'' \<Longrightarrow> grows r s s''"
    unfolding grows_def by (elim conjE exE) (auto simp: subset_iff)
qed (auto simp: grows_def)

text \<open>
  The bound on the depth only decides whether the model reaches the end of the crawl:
  a result found with one bound is found with every larger one.
\<close>

lemma crawl_links_more_fuel:
  assumes self: "\<And>l s res. self l s = Some res \<Longrightarrow> self' l s = Some res"
  shows "crawl_links self w st lim u ls s = Some res \<Longrightarrow>
         crawl_links self' w st lim u ls s = Some res"
proof (induction ls arbitrary: s)
  case Nil
  then show ?case by simp
next
  case (Cons l ls)
  show ?case
  proof (cases "time_limit_reached st lim (clock w (reads s))")
    case True
    with Cons.prems show ?thesis by (simp add: date_now_def)
  next
    case False
    note eq = crawl_links_Cons_unreached [OF False]
    show ?thesis
    proof (cases "prefix u l")
      case False
      with Cons.prems Cons.IH show ?thesis by (simp add: eq del: crawl_links.simps)
    next
      case True
      let ?s2 = "log_event (Follow u l) (log_event (Check False) (snd (date_now w s)))"
      from Cons.prems True obtain r3 s3 where rec: "self l ?s2 = Some (r3, s3)"
        by (auto simp: eq simp del: crawl_links.simps split: option.splits)
      from self [OF rec] have rec': "self' l ?s2 = Some (r3, s3)" .
      show ?thesis
      proof (cases r3)
        case Thrown
        with Cons.prems True rec have "res = (Thrown, s3)"
          by (simp add: eq del: crawl_links.simps)
        with True rec' Thrown show ?thesis by (simp add: eq del: crawl_links.simps)
      next
        case Returned
        with Cons.prems True rec have "crawl_links self w st lim u ls s3 = Some res"
          by (simp add: eq del: crawl_links.simps)
        from Cons.IH [OF this] True rec' Returned show ?thesis
          by (simp add: eq del: crawl_links.simps)
      qed
    qed
  qed
qed

lemma crawl_Suc_fuel:
  "crawl fuel w st lim u s = Some res \<Longrightarrow> crawl (Suc fuel) w st lim u s = Some res"
proof (induction fuel arbitrary: u s res)
  case 0
  then show ?case by simp
next
  case (Suc fuel)
  have step: "crawl_links (crawl fuel w st lim) w st lim u ls s' = Some res \<Longrightarrow>
              crawl_links (crawl (Suc fuel) w st lim) w st lim u ls s' = Some res" for ls s'
    by (rule crawl_links_more_fuel [where self = "crawl fuel w st lim"]) (rule Suc.IH)
  show ?case
  proof (cases "u \<in> set (visited s) \<or> time_limit_reached st lim (clock w (reads s))")
    case True
    with Suc.prems show ?thesis by (auto simp: date_now_def)
  next
    case False
    then have nv: "u \<notin> set (visited s)" and nr: "\<not> time_limit_reached st lim (clock w (reads s))"
      by auto
    from Suc.prems show ?thesis
      unfolding crawl_Suc_unreached [OF nv nr]
      by (cases "scrapePageData w u") (auto dest: step)
  qed
qed

lemma crawl_more_fuel:
  "crawl fuel w st lim u s = Some res \<Longrightarrow> crawl (fuel + k) w st lim u s = Some res"
  by (induction k) (auto dest: crawl_Suc_fuel)

lemma crawlSite_more_fuel:
  "crawlSite fuel w seed lim = Some res \<Longrightarrow> crawlSite (fuel + k) w seed lim = Some res"
  unfolding crawlSite_def
  by (auto split: option.splits dest: crawl_more_fuel [where k = k])

subsection \<open>The runs of the examples\<close>

lemma demo_run: "crawlSite 4 demo_web ''A'' 10 = Some (Inr demo_pages, demo_final)"
  by code_simp

lemma ticking_run:
  "crawlSite 3 ticking_web ''A'' 3 =
     Some (Inr [page_record ''A'' (no_data [''A/B'', ''A/C''])], ticking_final)"
  by code_simp

lemma back_run:
  "crawlSite 3 back_web ''A'' 2 =
     Some (Inr [page_record ''A'' (no_data [''A/B'', ''A/C'']), page_record ''A/C'' (no_data [])],
           back_final)"
  by code_simp

lemma scope_run:
  "crawlSite 3 scope_web ''https://x.com/a'' 10 = Some (Inr scope_pages, scope_final)"
  by code_simp

lemma failing_run: "scrapperFunc 3 failing_web ''A'' 10 = Some (Inl FetchError, failing_final)"
  by code_simp


lemma never_reached_still: "never_reached demo_web 10" "never_reached scope_web 10"
  by (simp_all add: never_reached_def time_limit_reached_def demo_web_def scope_web_def)

subsection \<open>No URL is fetched twice\<close>

lemma once_step_trans: "once_step Returned s s' \<Longrightarrow> once_step r s' s'' \<Longrightarrow> once_step r s s''"
  unfolding once_step_def by (elim impCE; clarsimp) blast

lemma crawl_once_step: "crawl fuel w st lim u s = Some (r, s') \<Longrightarrow> once_step r s s'"
proof (rule crawl_rule [where Q = once_step])
  show "\<And>s. once_step Returned s s" by (simp add: once_step_def)
  show "\<And>r s s' s''. once_step Returned s s' \<Longrightarrow> once_step r s' s'' \<Longrightarrow> once_step r s s''"
    by (rule once_step_trans)
qed (auto simp: once_step_def once_inv_def)

text \<open>
  Claim C3. In every crawl that returns or throws, with any pages and any clock, the
  visited set has no duplicate entry, no URL is fetched twice, every fetched URL was
  marked visited (also the one whose fetch threw), and the records have distinct URLs,
  all of them fetched: each URL has at most one fetch and at most one record.
\<close>

theorem crawl_fetches_each_url_once:
  assumes "crawlSite fuel w seed lim = Some (res, s)"
  shows "distinct (visited s) \<and> distinct (fetched (trace s)) \<and>
         set (fetched (trace s)) \<subseteq> set (visited s) \<and>
         distinct (map url (allData s)) \<and> set (map url (allData s)) \<subseteq> set (fetched (trace s))"
proof -
  from assms obtain r where "crawl fuel w (clock w 0) lim seed crawl_init = Some (r, s)"
    by (rule crawlSite_crawl)
  then have "once_step r crawl_init s" by (rule crawl_once_step)
  moreover have "once_inv crawl_init" by (simp add: once_inv_def crawl_init_def)
  ultimately show ?thesis by (simp add: once_step_def once_inv_def)
qed

theorem crawl_fetches_each_url_once_witness:
  "crawlSite 4 demo_web ''A'' 10 = Some (Inr demo_pages, demo_final) \<and>
   distinct (visited demo_final) \<and> distinct (fetched (trace demo_final)) \<and>
   fetched (trace demo_final) = [''A'', ''A/B'', ''A/B/D'', ''A/C''] \<and>
   distinct (map url (allData demo_final))"
proof -
  have "fetched (trace demo_final) = [''A'', ''A/B'', ''A/B/D'', ''A/C'']"
    by (simp add: demo_final_def)
  with crawl_fetches_each_url_once [OF demo_run] demo_run show ?thesis by blast
qed

text \<open>
  A URL that is in the visited set when \<open>crawl\<close> is called is not fetched by that call
  or below it: the test against the visited set precedes every fetch.
\<close>

lemma crawl_skips_visited:
  assumes "crawl fuel w st lim u s = Some (r, s')" and "once_inv s"
  shows "\<exists>new. fetched (trace s') = fetched (trace s) @ new \<and> set new \<inter> set (visited s) = {}"
  using crawl_once_step [OF assms(1)] assms(2) by (simp add: once_step_def)

subsection \<open>A failing fetch\<close>

lemma throw_spec_trans:
  "throw_spec w Returned s s' \<Longrightarrow> throw_spec w r s' s'' \<Longrightarrow> throw_spec w r s s''"
  unfolding throw_spec_def
  by (cases r) (elim exE conjE; fastforce)+

lemma crawl_throw_spec: "crawl fuel w st lim u s = Some (r, s') \<Longrightarrow> throw_spec w r s s'"
proof (rule crawl_rule [where Q = "throw_spec w"])
  show "\<And>r s s' s''. throw_spec w Returned s s' \<Longrightarrow> throw_spec w r s' s'' \<Longrightarrow> throw_spec w r s s''"
    by (rule throw_spec_trans)
qed (auto simp: throw_spec_def)

lemma crawl_keeps_loaded: "crawl fuel w st lim u s = Some (r, s') \<Longrightarrow> keeps_loaded w r s s'"
  by (rule crawl_rule [where Q = "keeps_loaded w"])
     (auto simp: keeps_loaded_def records_loaded_def)

text \<open>
  Claim C2, as the code has it. Nothing in \<open>crawl\<close> catches the exception of
  \<open>scrapePageData\<close>: when the fetch of any URL fails, the failing fetch is the last event
  of the crawl (no later check, fetch or link, so the remaining sibling links are not
  traversed), and \<open>scrapperFunc\<close> throws the error again instead of returning a result.
  The URL whose fetch failed is in the visited set and has no record.
\<close>

theorem fetch_failure_aborts_crawl:
  assumes "scrapperFunc fuel w seed lim = Some (res, s)"
    and "\<exists>u \<in> set (fetched (trace s)). scrapePageData w u = None"
  shows "res = Inl FetchError \<and>
         (\<exists>tr u. trace s = tr @ [Fetch u] \<and> scrapePageData w u = None) \<and>
         (\<forall>u \<in> set (fetched (trace s)). scrapePageData w u = None \<longrightarrow>
            u \<in> set (visited s) \<and> u \<notin> set (map url (allData s)))"
proof -
  have old: "res = Inl FetchError \<and> (\<exists>tr u. trace s = tr @ [Fetch u] \<and> scrapePageData w u = None)"
  proof (cases "browser_launches w")
    case False
    with assms(1) have "trace s = []" by (auto simp: scrapperFunc_def crawl_init_def)
    with assms(2) show ?thesis by simp
  next
    case True
    with assms(1) obtain r where c: "crawl fuel w (clock w 0) lim seed crawl_init = Some (r, s)"
      and r: "res = (case r of Thrown \<Rightarrow> Inl FetchError | Returned \<Rightarrow> Inr (allData s))"
      by (auto simp: scrapperFunc_def crawlSite_def split: option.splits outcome.splits)
    from crawl_throw_spec [OF c] assms(2) have "r = Thrown"
      by (cases r) (auto simp: throw_spec_def crawl_init_def)
    with crawl_throw_spec [OF c] r show ?thesis
      by (auto simp: throw_spec_def crawl_init_def)
  qed
  have new: "u \<in> set (visited s) \<and> u \<notin> set (map url (allData s))"
    if u: "u \<in> set (fetched (trace s))" and none: "scrapePageData w u = None" for u
  proof -
    from assms(1) u have cs: "crawlSite fuel w seed lim = Some (res, s)"
      by (cases "browser_launches w") (auto simp: scrapperFunc_def crawl_init_def)
    from cs obtain r where c: "crawl fuel w (clock w 0) lim seed crawl_init = Some (r, s)"
      by (rule crawlSite_crawl)
    have "once_inv crawl_init" by (simp add: once_inv_def crawl_init_def)
    with crawl_once_step [OF c] have "once_inv s" by (simp add: once_step_def)
    with u have v: "u \<in> set (visited s)" by (auto simp: once_inv_def)
    have "records_loaded w crawl_init" by (simp add: records_loaded_def crawl_init_def)
    with crawl_keeps_loaded [OF c] have "records_loaded w s" by (simp add: keeps_loaded_def)
    with none have "u \<notin> set (map url (allData s))"
      by (auto simp: records_loaded_def)
    with v show ?thesis by simp
  qed
  from old new show ?thesis by blast
qed

theorem fetch_failure_aborts_crawl_witness:
  "scrapperFunc 3 failing_web ''A'' 10 = Some (Inl FetchError, failing_final) \<and>
   scrapePageData failing_web ''A/B'' = None \<and> ''A/B'' \<in> set (fetched (trace failing_final)) \<and>
   (\<exists>tr u. trace failing_final = tr @ [Fetch u] \<and> scrapePageData failing_web u = None) \<and>
   ''A/B'' \<in> set (visited failing_final) \<and> ''A/B'' \<notin> set (map url (allData failing_final))"
proof -
  have f: "scrapePageData failing_web ''A/B'' = None"
    by (simp add: scrapePageData_def failing_web_def)
  have m: "''A/B'' \<in> set (fetched (trace failing_final))"
    by (simp add: failing_final_def)
  from f m have "\<exists>u \<in> set (fetched (trace failing_final)). scrapePageData failing_web u = None"
    by blast
  from fetch_failure_aborts_crawl [OF failing_run this] failing_run f m show ?thesis by blast
qed

text \<open>
  The claim as the specification states it fails on the example: loading B fails, no
  result is returned, and the sibling link C of the same page is never fetched.
\<close>

theorem fetch_failure_skips_sibling:
  "crawlSite 3 failing_web ''A'' 10 = Some (Inl FetchError, failing_final) \<and>
   links (hd (allData failing_final)) = [''A/B'', ''A/C''] \<and>
   scrapePageData failing_web ''A/C'' \<noteq> None \<and>
   fetched (trace failing_final) = [''A'', ''A/B'']"
proof -
  have "crawlSite 3 failing_web ''A'' 10 = Some (Inl FetchError, failing_final)"
    by code_simp
  moreover have "links (hd (allData failing_final)) = [''A/B'', ''A/C'']"
    by (simp add: failing_final_def no_data_def)
  moreover have "scrapePageData failing_web ''A/C'' \<noteq> None"
    by (simp add: scrapePageData_def failing_web_def)
  moreover have "fetched (trace failing_final) = [''A'', ''A/B'']"
    by (simp add: failing_final_def)
  ultimately show ?thesis by blast
qed

subsection \<open>Which links are followed\<close>

lemma scoped_refl: "scoped u s s"
  by (simp add: scoped_def)

lemma scoped_trans: "scoped u s s' \<Longrightarrow> scoped u s' s'' \<Longrightarrow> scoped u s s''"
  unfolding scoped_def by (elim exE conjE) auto

lemma scoped_weaken: "prefix u l \<Longrightarrow> scoped l s s' \<Longrightarrow> scoped u s s'"
  unfolding scoped_def by (meson prefix_order.trans)

lemma crawl_links_scoped:
  assumes self: "\<And>l s r s'. self l s = Some (r, s') \<Longrightarrow> scoped l s s'"
  shows "crawl_links self w st lim u ls s = Some (r, s') \<Longrightarrow> scoped u s s'"
proof (induction ls arbitrary: s)
  case Nil
  then show ?case by (simp add: scoped_refl)
next
  case (Cons l ls)
  let ?s1 = "log_event (Check False) (snd (date_now w s))"
  let ?s2 = "log_event (Follow u l) ?s1"
  have 1: "scoped u s ?s1" by (simp add: scoped_def)
  show ?case
  proof (cases "time_limit_reached st lim (clock w (reads s))")
    case True
    with Cons.prems show ?thesis by (auto simp: date_now_def scoped_def log_event_def)
  next
    case nr: False
    show ?thesis
    proof (cases "prefix u l")
      case False
      with Cons.prems nr have "crawl_links self w st lim u ls ?s1 = Some (r, s')"
        by (simp add: date_now_def)
      from scoped_trans [OF 1 Cons.IH [OF this]] show ?thesis .
    next
      case True
      with Cons.prems nr obtain r3 s3 where rec: "self l ?s2 = Some (r3, s3)"
        by (auto simp: date_now_def split: option.splits)
      have 2: "scoped u s ?s2" using True by (simp add: scoped_def)
      have 3: "scoped u s s3"
        using scoped_trans [OF 2 scoped_weaken [OF True self [OF rec]]] .
      show ?thesis
      proof (cases r3)
        case Thrown
        with Cons.prems nr True rec have "s' = s3" by (auto simp: date_now_def)
        with 3 show ?thesis by simp
      next
        case Returned
        with Cons.prems nr True rec have "crawl_links self w st lim u ls s3 = Some (r, s')"
          by (auto simp: date_now_def)
        from scoped_trans [OF 3 Cons.IH [OF this]] show ?thesis .
      qed
    qed
  qed
qed

lemma crawl_scoped: "crawl fuel w st lim u s = Some (r, s') \<Longrightarrow> scoped u s s'"
proof (induction fuel arbitrary: u s r s')
  case 0
  then show ?case by simp
next
  case (Suc fuel)
  show ?case
  proof (cases "u \<in> set (visited s) \<or> time_limit_reached st lim (clock w (reads s)) \<or>
                scrapePageData w u = None")
    case True
    with Suc.prems show ?thesis
      by (auto simp: date_now_def scoped_def log_event_def mark_visited_def split: if_splits)
  next
    case False
    then obtain pd where pd: "scrapePageData w u = Some pd" by auto
    let ?s2 = "push_record (page_record u pd) (log_event (Fetch u) (mark_visited u
                 (log_event (Check False) (snd (date_now w s)))))"
    from Suc.prems False pd
    have "crawl_links (crawl fuel w st lim) w st lim u (links pd) ?s2 = Some (r, s')"
      by (simp add: date_now_def)
    from crawl_links_scoped [where self = "crawl fuel w st lim", OF Suc.IH this]
    have "scoped u ?s2 s'" .
    moreover have "scoped u s ?s2" by (simp add: scoped_def)
    ultimately show ?thesis by (rule scoped_trans [rotated])
  qed
qed

lemma all_followed_trans: "all_followed s s' \<Longrightarrow> all_followed s' s'' \<Longrightarrow> all_followed s s''"
  unfolding all_followed_def by (elim exE conjE) fastforce

lemma all_followed_log: "all_followed s (log_event e s)"
  by (simp add: all_followed_def)

lemma all_followed_now: "all_followed s (snd (date_now w s))"
  by (simp add: all_followed_def)

lemma all_followed_traceD: "all_followed s s' \<Longrightarrow> set (trace s) \<subseteq> set (trace s')"
  by (auto simp: all_followed_def)

lemma crawl_links_all_followed:
  assumes nr: "\<And>k. \<not> time_limit_reached st lim (clock w k)"
    and self: "\<And>l s s'. self l s = Some (Returned, s') \<Longrightarrow> all_followed s s'"
  shows "crawl_links self w st lim u ls s = Some (Returned, s') \<Longrightarrow>
         all_followed s s' \<and> (\<forall>l \<in> set ls. prefix u l \<longrightarrow> Follow u l \<in> set (trace s'))"
proof (induction ls arbitrary: s)
  case Nil
  then show ?case by (simp add: all_followed_def)
next
  case (Cons l ls)
  let ?s1 = "log_event (Check False) (snd (date_now w s))"
  let ?s2 = "log_event (Follow u l) ?s1"
  have 1: "all_followed s ?s1"
    by (rule all_followed_trans [OF all_followed_now all_followed_log])
  have 2: "all_followed s ?s2"
    by (rule all_followed_trans [OF 1 all_followed_log])
  note eq = Cons.prems [unfolded crawl_links_Cons_unreached [OF nr]]
  show ?case
  proof (cases "prefix u l")
    case False
    with eq have "crawl_links self w st lim u ls ?s1 = Some (Returned, s')" by simp
    from Cons.IH [OF this] False 1 show ?thesis by (auto intro: all_followed_trans)
  next
    case True
    with eq obtain s3 where rec: "self l ?s2 = Some (Returned, s3)"
      and rest: "crawl_links self w st lim u ls s3 = Some (Returned, s')"
      by (auto split: option.splits outcome.splits)
    have 3: "all_followed s s3" by (rule all_followed_trans [OF 2 self [OF rec]])
    have "Follow u l \<in> set (trace ?s2)" by simp
    then have "Follow u l \<in> set (trace s')"
      using all_followed_traceD [OF self [OF rec]] all_followed_traceD [OF conjunct1 [OF Cons.IH [OF rest]]]
      by blast
    with Cons.IH [OF rest] 3 show ?thesis by (auto intro: all_followed_trans)
  qed
qed

lemma crawl_all_followed:
  assumes nr: "\<And>k. \<not> time_limit_reached st lim (clock w k)"
  shows "crawl fuel w st lim u s = Some (Returned, s') \<Longrightarrow> all_followed s s'"
proof (induction fuel arbitrary: u s s')
  case 0
  then show ?case by simp
next
  case (Suc fuel)
  show ?case
  proof (cases "u \<in> set (visited s)")
    case True
    with Suc.prems show ?thesis by (simp add: all_followed_def)
  next
    case False
    note eq = Suc.prems [unfolded crawl_Suc_unreached [OF False nr]]
    then obtain pd where pd: "scrapePageData w u = Some pd"
      by (cases "scrapePageData w u") auto
    let ?s2 = "push_record (page_record u pd) (log_event (Fetch u) (mark_visited u
                 (log_event (Check False) (snd (date_now w s)))))"
    from eq pd have "crawl_links (crawl fuel w st lim) w st lim u (links pd) ?s2 = Some (Returned, s')"
      by simp
    moreover have "\<And>l s s'. crawl fuel w st lim l s = Some (Returned, s') \<Longrightarrow> all_followed s s'"
      by (rule Suc.IH)
    ultimately have "all_followed ?s2 s' \<and>
        (\<forall>l \<in> set (links pd). prefix u l \<longrightarrow> Follow u l \<in> set (trace s'))"
      by (intro crawl_links_all_followed [where self = "crawl fuel w st lim", OF nr])
    then obtain ds tr where ds: "allData s' = allData ?s2 @ ds" and tr: "trace s' = trace ?s2 @ tr"
      and old: "\<forall>d \<in> set ds. \<forall>l \<in> set (links d). prefix (url d) l \<longrightarrow> Follow (url d) l \<in> set (trace s')"
      and new: "\<forall>l \<in> set (links pd). prefix u l \<longrightarrow> Follow u l \<in> set (trace s')"
      by (auto simp: all_followed_def)
    have "allData s' = allData s @ page_record u pd # ds" using ds by simp
    moreover have "trace s' = trace s @ (Check False # Fetch u # tr)" using tr by simp
    moreover have "\<forall>d \<in> set (page_record u pd # ds). \<forall>l \<in> set (links d). prefix (url d) l \<longrightarrow>
        Follow (url d) l \<in> set (trace s')"
      using old new by (auto simp: page_record_def)
    ultimately show ?thesis unfolding all_followed_def by blast
  qed
qed

text \<open>
  What the test of the loop does. \<open>link.startsWith(url)\<close> reads the parameter of the
  enclosing call of \<open>crawl\<close>, which is the page the link was found on. So a followed
  link has the URL of its own page as a prefix (and therefore the seed too), and in a
  crawl that returns its pages without ever finding the time limit reached, a link found
  on a page is followed exactly when the URL of that page is a prefix of it.
\<close>

lemma link_followed_iff_prefix_of_page:
  assumes "crawlSite fuel w seed lim = Some (res, s)"
  shows "(\<forall>p l. Follow p l \<in> set (trace s) \<longrightarrow> prefix p l \<and> prefix seed p \<and> prefix seed l) \<and>
         (never_reached w lim \<longrightarrow> (\<forall>pages. res = Inr pages \<longrightarrow>
            (\<forall>d \<in> set pages. \<forall>l \<in> set (links d).
               (Follow (url d) l \<in> set (trace s)) = prefix (url d) l)))"
proof -
  from assms obtain r where c: "crawl fuel w (clock w 0) lim seed crawl_init = Some (r, s)"
    and r: "res = (case r of Thrown \<Rightarrow> Inl FetchError | Returned \<Rightarrow> Inr (allData s))"
    by (auto simp: crawlSite_def split: option.splits outcome.splits)
  from crawl_scoped [OF c]
  have a: "\<forall>p l. Follow p l \<in> set (trace s) \<longrightarrow> prefix p l \<and> prefix seed p \<and> prefix seed l"
    by (auto simp: scoped_def crawl_init_def intro: prefix_order.trans)
  have "\<forall>d \<in> set pages. \<forall>l \<in> set (links d). (Follow (url d) l \<in> set (trace s)) = prefix (url d) l"
    if nr: "never_reached w lim" and res: "res = Inr pages" for pages
  proof -
    from r res have ret: "r = Returned" and pages: "pages = allData s" by (cases r; simp)+
    from nr have "\<And>k. \<not> time_limit_reached (clock w 0) lim (clock w k)"
      by (simp add: never_reached_def)
    from crawl_all_followed [OF this c [unfolded ret]] pages a show ?thesis
      by (auto simp: all_followed_def crawl_init_def)
  qed
  with a show ?thesis by blast
qed


text \<open>
  On the example of the specification the page is the seed itself, and exactly the first
  of its three links is followed.
\<close>

lemma seed_page_links_followed:
  "crawlSite 3 scope_web ''https://x.com/a'' 10 = Some (Inr scope_pages, scope_final) \<and>
   never_reached scope_web 10 \<and>
   Follow ''https://x.com/a'' ''https://x.com/a/b'' \<in> set (trace scope_final) \<and>
   Follow ''https://x.com/a'' ''https://x.com/other'' \<notin> set (trace scope_final) \<and>
   Follow ''https://x.com/a'' ''https://y.com/a'' \<notin> set (trace scope_final)"
proof -
  let ?d = "page_record ''https://x.com/a''
              (no_data [''https://x.com/a/b'', ''https://x.com/other'', ''https://y.com/a''])"
  have d: "?d \<in> set scope_pages" by (simp add: scope_pages_def)
  from link_followed_iff_prefix_of_page [OF scope_run] never_reached_still(2) d
  have "\<forall>l \<in> set (links ?d). (Follow (url ?d) l \<in> set (trace scope_final)) = prefix (url ?d) l"
    by blast
  then show ?thesis
    using scope_run never_reached_still(2) by (simp add: no_data_def)
qed

text \<open>
  Claim C1. A link found on a reached page is to be followed exactly when the seed is a
  prefix of it; the comment at the test says that internal links are followed. The code
  misses this one level below the seed, where the parameter \<open>url\<close> of \<open>crawl\<close> is no
  longer the seed: while the time limit is never reached, the link found on the second
  page has the seed as a prefix, and it is neither followed nor fetched, because the
  second page is not a prefix of it.
\<close>

theorem seed_prefix_link_not_followed:
  "crawlSite 3 scope_web ''https://x.com/a'' 10 = Some (Inr scope_pages, scope_final) \<and>
   never_reached scope_web 10 \<and>
   links (scope_pages ! 1) = [''https://x.com/a/c''] \<and> url (scope_pages ! 1) = ''https://x.com/a/b'' \<and>
   prefix ''https://x.com/a'' ''https://x.com/a/c'' \<and>
   Follow ''https://x.com/a/b'' ''https://x.com/a/c'' \<notin> set (trace scope_final) \<and>
   ''https://x.com/a/c'' \<notin> set (fetched (trace scope_final))"
proof -
  have "links (scope_pages ! 1) = [''https://x.com/a/c'']"
    and "url (scope_pages ! 1) = ''https://x.com/a/b''"
    by (simp_all add: scope_pages_def no_data_def)
  moreover have "prefix ''https://x.com/a'' ''https://x.com/a/c''" by simp
  moreover have "Follow ''https://x.com/a/b'' ''https://x.com/a/c'' \<notin> set (trace scope_final)"
    and "''https://x.com/a/c'' \<notin> set (fetched (trace scope_final))"
    by (simp_all add: scope_final_def)
  ultimately show ?thesis using scope_run never_reached_still(2) by blast
qed

subsection \<open>The order of the result\<close>

lemma pre_step_Nil: "pre_step w [] s s"
  by (simp add: pre_step_def)

lemma pre_step_append:
  "pre_step w xs s s' \<Longrightarrow> pre_step w ys s' s'' \<Longrightarrow> pre_step w (xs @ ys) s s''"
  unfolding pre_step_def by (elim exE conjE) fastforce

lemma crawl_links_preorder:
  assumes nr: "\<And>k. \<not> time_limit_reached st lim (clock w k)"
    and self: "\<And>l s s'. self l s = Some (Returned, s') \<Longrightarrow> pre_step w [l] s s'"
  shows "crawl_links self w st lim u ls s = Some (Returned, s') \<Longrightarrow>
         pre_step w (filter (prefix u) ls) s s'"
proof (induction ls arbitrary: s)
  case Nil
  then show ?case by (simp add: pre_step_Nil)
next
  case (Cons l ls)
  let ?s1 = "log_event (Check False) (snd (date_now w s))"
  let ?s2 = "log_event (Follow u l) ?s1"
  note eq = Cons.prems [unfolded crawl_links_Cons_unreached [OF nr]]
  show ?case
  proof (cases "prefix u l")
    case False
    with eq have "crawl_links self w st lim u ls ?s1 = Some (Returned, s')" by simp
    from Cons.IH [OF this] False show ?thesis by (simp add: pre_step_def)
  next
    case True
    with eq obtain s3 where rec: "self l ?s2 = Some (Returned, s3)"
      and rest: "crawl_links self w st lim u ls s3 = Some (Returned, s')"
      by (auto split: option.splits outcome.splits)
    have "pre_step w [l] s s3" using self [OF rec] by (simp add: pre_step_def)
    from pre_step_append [OF this Cons.IH [OF rest]] True show ?thesis by simp
  qed
qed

lemma crawl_preorder:
  assumes nr: "\<And>k. \<not> time_limit_reached st lim (clock w k)"
  shows "crawl fuel w st lim u s = Some (Returned, s') \<Longrightarrow> pre_step w [u] s s'"
proof (induction fuel arbitrary: u s s')
  case 0
  then show ?case by simp
next
  case (Suc fuel)
  show ?case
  proof (cases "u \<in> set (visited s)")
    case True
    with Suc.prems have "s' = s" by simp
    with True show ?thesis by (auto simp: pre_step_def intro: dfs_preorder.seen)
  next
    case False
    note eq = Suc.prems [unfolded crawl_Suc_unreached [OF False nr]]
    then obtain pd where pd: "scrapePageData w u = Some pd"
      by (cases "scrapePageData w u") auto
    let ?s2 = "push_record (page_record u pd) (log_event (Fetch u) (mark_visited u
                 (log_event (Check False) (snd (date_now w s)))))"
    from eq pd have "crawl_links (crawl fuel w st lim) w st lim u (links pd) ?s2 = Some (Returned, s')"
      by simp
    from crawl_links_preorder [where self = "crawl fuel w st lim", OF nr Suc.IH this]
    have "pre_step w (children w u) ?s2 s'" by (simp add: children_def pd)
    then obtain ds where ds: "allData s' = allData ?s2 @ ds"
      and step: "\<And>stack order. dfs_preorder (children w) (set (visited s')) stack order \<Longrightarrow>
        dfs_preorder (children w) (insert u (set (visited s))) (children w u @ stack) (map url ds @ order)"
      by (auto simp: pre_step_def)
    have "dfs_preorder (children w) (set (visited s)) ([u] @ stack) (map url (page_record u pd # ds) @ order)"
      if "dfs_preorder (children w) (set (visited s')) stack order" for stack order
      using dfs_preorder.visit [OF False step [OF that]] by simp
    moreover have "allData s' = allData s @ page_record u pd # ds" using ds by simp
    ultimately show ?thesis unfolding pre_step_def by blast
  qed
qed

text \<open>
  Claim C4. When \<open>crawlSite\<close> returns its pages and no check finds the time limit
  reached, the URLs of the pages, in the order of the result, are the depth-first
  pre-order from the seed over the followed links: a page stands before the pages
  reached from its links, and everything reached from one link stands before the next
  sibling link is tried. The pages are a function of the URL, so the extractor is
  deterministic.
\<close>

theorem crawl_result_is_preorder:
  assumes "crawlSite fuel w seed lim = Some (Inr pages, s)"
    and "never_reached w lim"
  shows "dfs_preorder (children w) {} [seed] (map url pages)"
proof -
  from assms(1) have c: "crawl fuel w (clock w 0) lim seed crawl_init = Some (Returned, s)"
    and p: "pages = allData s"
    by (auto simp: crawlSite_def split: option.splits outcome.splits)
  have "pre_step w [seed] crawl_init s"
    using assms(2) by (intro crawl_preorder [OF _ c]) (simp add: never_reached_def)
  with p dfs_preorder.finished [of "children w" "set (visited s)"] show ?thesis
    by (fastforce simp: pre_step_def crawl_init_def)
qed


theorem crawl_result_is_preorder_witness:
  "crawlSite 4 demo_web ''A'' 10 = Some (Inr demo_pages, demo_final) \<and>
   never_reached demo_web 10 \<and>
   dfs_preorder (children demo_web) {} [''A''] [''A'', ''A/B'', ''A/B/D'', ''A/C'']"
proof -
  have "map url demo_pages = [''A'', ''A/B'', ''A/B/D'', ''A/C'']"
    by (simp add: demo_pages_def)
  with crawl_result_is_preorder [OF demo_run never_reached_still(1)] demo_run
    never_reached_still(1)
  show ?thesis by simp
qed

text \<open>
  The crawl returns: when all links lie in a finite set of URLs that holds the seed, a
  recursion depth of one more than the size of the set is enough.
\<close>

lemma crawl_links_returns:
  assumes fin: "finite U"
    and self: "\<And>l s. l \<in> U \<Longrightarrow> card (U - set (visited s)) < n \<Longrightarrow> \<exists>res. self l s = Some res"
    and mono: "\<And>l s r s'. self l s = Some (r, s') \<Longrightarrow> set (visited s) \<subseteq> set (visited s')"
  shows "set ls \<subseteq> U \<Longrightarrow> card (U - set (visited s)) < n \<Longrightarrow>
         \<exists>res. crawl_links self w st lim u ls s = Some res"
proof (induction ls arbitrary: s)
  case Nil
  then show ?case by simp
next
  case (Cons l ls)
  let ?s1 = "log_event (Check False) (snd (date_now w s))"
  let ?s2 = "log_event (Follow u l) ?s1"
  show ?case
  proof (cases "time_limit_reached st lim (clock w (reads s))")
    case True
    then show ?thesis by (simp add: date_now_def)
  next
    case False
    note eq = crawl_links_Cons_unreached [OF False, of self u l ls]
    from Cons.prems have ls: "set ls \<subseteq> U" and l: "l \<in> U" by auto
    show ?thesis
    proof (cases "prefix u l")
      case False
      have "\<exists>res. crawl_links self w st lim u ls ?s1 = Some res"
        using Cons.prems by (intro Cons.IH ls) simp
      with False show ?thesis by (subst eq) simp
    next
      case True
      have "\<exists>res. self l ?s2 = Some res" using Cons.prems by (intro self l) simp
      then obtain r3 s3 where rec: "self l ?s2 = Some (r3, s3)" by auto
      show ?thesis
      proof (cases r3)
        case Thrown
        with rec True show ?thesis by (subst eq) simp
      next
        case Returned
        from mono [OF rec] have "U - set (visited s3) \<subseteq> U - set (visited s)" by auto
        with fin have "card (U - set (visited s3)) \<le> card (U - set (visited s))"
          by (intro card_mono) auto
        with Cons.prems have "\<exists>res. crawl_links self w st lim u ls s3 = Some res"
          by (intro Cons.IH ls) simp
        with rec True Returned show ?thesis by (subst eq) simp
      qed
    qed
  qed
qed

lemma crawl_returns:
  assumes fin: "finite U"
    and closed: "\<And>v pd. scrapePageData w v = Some pd \<Longrightarrow> set (links pd) \<subseteq> U"
  shows "u \<in> U \<Longrightarrow> card (U - set (visited s)) < fuel \<Longrightarrow> \<exists>res. crawl fuel w st lim u s = Some res"
proof (induction fuel arbitrary: u s)
  case 0
  then show ?case by simp
next
  case (Suc fuel)
  show ?case
  proof (cases "u \<in> set (visited s) \<or> time_limit_reached st lim (clock w (reads s))")
    case True
    then show ?thesis by (auto simp: date_now_def)
  next
    case False
    then have nv: "u \<notin> set (visited s)" and nr: "\<not> time_limit_reached st lim (clock w (reads s))"
      by auto
    note eq = crawl_Suc_unreached [OF nv nr, of fuel]
    show ?thesis
    proof (cases "scrapePageData w u")
      case None
      then show ?thesis by (subst eq) simp
    next
      case (Some pd)
      let ?s2 = "push_record (page_record u pd) (log_event (Fetch u) (mark_visited u
                   (log_event (Check False) (snd (date_now w s)))))"
      have "U - set (visited ?s2) \<subset> U - set (visited s)"
        using Suc.prems(1) nv by auto
      with fin have "card (U - set (visited ?s2)) < card (U - set (visited s))"
        by (intro psubset_card_mono) auto
      with Suc.prems(2) have less: "card (U - set (visited ?s2)) < fuel" by simp
      have mono: "\<And>l s r s'. crawl fuel w st lim l s = Some (r, s') \<Longrightarrow>
                    set (visited s) \<subseteq> set (visited s')"
        using crawl_grows by (simp add: grows_def)
      have "\<exists>res. crawl_links (crawl fuel w st lim) w st lim u (links pd) ?s2 = Some res"
        using closed [OF Some] less
        by (intro crawl_links_returns [where U = U and n = fuel, OF fin Suc.IH mono])
      with Some show ?thesis by (subst eq) simp
    qed
  qed
qed

lemma crawlSite_returns:
  assumes "finite U" and "seed \<in> U"
    and "\<And>v pd. scrapePageData w v = Some pd \<Longrightarrow> set (links pd) \<subseteq> U"
  shows "\<exists>res. crawlSite (Suc (card U)) w seed lim = Some res"
proof -
  have c: "card (U - set (visited crawl_init)) < Suc (card U)"
    by (simp add: crawl_init_def)
  have "\<exists>res. crawl (Suc (card U)) w (clock w 0) lim seed crawl_init = Some res"
    by (rule crawl_returns [where U = U and w = w]) (fact assms c)+
  then obtain r s where "crawl (Suc (card U)) w (clock w 0) lim seed crawl_init = Some (r, s)"
    by auto
  then show ?thesis unfolding crawlSite_def by (cases r) simp_all
qed

subsection \<open>The time limit\<close>

lemma checked_trace_append:
  assumes "checked_trace tr" and "successively step_ok (Check b # es)"
  shows "checked_trace (tr @ Check b # es)"
proof -
  have "step_ok e (Check b)" for e by (simp add: step_ok_def)
  with assms have "successively step_ok (tr @ Check b # es)"
    by (simp add: checked_trace_def successively_append_iff)
  moreover have "\<forall>u. hd (tr @ Check b # es) \<noteq> Fetch u"
    using assms(1) by (cases tr) (auto simp: checked_trace_def)
  ultimately show ?thesis by (simp add: checked_trace_def)
qed

lemma crawl_keeps_checked: "crawl fuel w st lim u s = Some (r, s') \<Longrightarrow> keeps_checked r s s'"
  by (rule crawl_rule [where Q = keeps_checked])
     (auto simp: keeps_checked_def step_ok_def intro!: checked_trace_append)

lemma checked_trace_fetch:
  assumes "checked_trace tr" and "tr = pre @ Fetch u # post"
  shows "\<exists>pre'. pre = pre' @ [Check False]"
proof (cases pre rule: rev_cases)
  case Nil
  with assms show ?thesis by (simp add: checked_trace_def)
next
  case (snoc pre' e)
  with assms have "step_ok e (Fetch u)"
    by (simp add: checked_trace_def successively_append_iff successively_Cons)
  with snoc show ?thesis by (simp add: step_ok_def)
qed

lemma checked_trace_expired:
  assumes "checked_trace tr" and "tr = pre @ Check True # e # post"
  shows "\<exists>c. e = Check c"
  using assms
  by (simp add: checked_trace_def successively_append_iff successively_Cons step_ok_def)

lemma expiry_final_snoc_True: "expiry_final tr \<Longrightarrow> expiry_final (tr @ [Check True])"
  unfolding expiry_final_def
proof (intro allI impI)
  fix pre post
  assume a: "\<forall>pre post. tr = pre @ Check True # post \<longrightarrow> set post \<subseteq> {Check True}"
    and b: "tr @ [Check True] = pre @ Check True # post"
  show "set post \<subseteq> {Check True}"
  proof (cases post rule: rev_cases)
    case Nil
    then show ?thesis by simp
  next
    case (snoc post' e)
    with b have "tr = pre @ Check True # post'" and "e = Check True" by auto
    with a snoc show ?thesis by auto
  qed
qed

lemma expiry_final_fresh: "Check True \<notin> set tr \<Longrightarrow> expiry_final tr"
  by (auto simp: expiry_final_def)

lemma unreached_no_expiry:
  assumes "monotone_clock w" and "expiry_inv w st lim s"
    and "\<not> time_limit_reached st lim (clock w (reads s))"
  shows "Check True \<notin> set (trace s)"
proof
  assume "Check True \<in> set (trace s)"
  with assms(2) obtain k where "k < reads s" and "time_limit_reached st lim (clock w k)"
    by (auto simp: expiry_inv_def)
  moreover from assms(1) \<open>k < reads s\<close> have "clock w k \<le> clock w (reads s)"
    by (simp add: monotone_clock_def)
  ultimately have "time_limit_reached st lim (clock w (reads s))"
    by (simp add: time_limit_reached_def)
  with assms(3) show False by simp
qed

lemma keeps_expiry_unreached:
  assumes "monotone_clock w" and "\<not> time_limit_reached st lim (clock w (reads s))"
    and "Check True \<notin> set (trace s) \<Longrightarrow> Check True \<notin> set (trace s')"
  shows "keeps_expiry w st lim r s s'"
  unfolding keeps_expiry_def
proof
  assume "expiry_inv w st lim s"
  from unreached_no_expiry [OF assms(1) this assms(2)] assms(3)
  have "Check True \<notin> set (trace s')" by simp
  then show "expiry_inv w st lim s'" by (simp add: expiry_inv_def expiry_final_fresh)
qed

lemma crawl_keeps_expiry:
  assumes mono: "monotone_clock w"
  shows "crawl fuel w st lim u s = Some (r, s') \<Longrightarrow> keeps_expiry w st lim r s s'"
proof (rule crawl_rule [where Q = "keeps_expiry w st lim"])
  fix s :: crawl_state
  assume "time_limit_reached st lim (clock w (reads s))"
  then show "keeps_expiry w st lim Returned s (log_event (Check True) (snd (date_now w s)))"
    unfolding keeps_expiry_def expiry_inv_def
    by (auto intro: expiry_final_snoc_True)
next
  show "\<And>s. keeps_expiry w st lim Returned s s"
    by (simp add: keeps_expiry_def)
next
  show "\<And>r s s' s''. keeps_expiry w st lim Returned s s' \<Longrightarrow> keeps_expiry w st lim r s' s'' \<Longrightarrow>
          keeps_expiry w st lim r s s''"
    by (simp add: keeps_expiry_def)
qed (rule keeps_expiry_unreached [OF mono]; simp)+

lemma crawl_keeps_recorded: "crawl fuel w st lim u s = Some (r, s') \<Longrightarrow> keeps_recorded w r s s'"
proof (rule crawl_rule [where Q = "keeps_recorded w"])
  show "\<And>r s s' s''. keeps_recorded w Returned s s' \<Longrightarrow> keeps_recorded w r s' s'' \<Longrightarrow>
          keeps_recorded w r s s''"
    unfolding keeps_recorded_def by (elim impCE; clarsimp)
qed (auto simp: keeps_recorded_def fetches_recorded_def)

lemma crawl_stops_at_expiry:
  "u \<notin> set (visited s) \<Longrightarrow> time_limit_reached st lim (clock w (reads s)) \<Longrightarrow>
   crawl (Suc fuel) w st lim u s = Some (Returned, log_event (Check True) (snd (date_now w s)))"
  by (simp add: date_now_def)

lemma crawl_links_stops_at_expiry:
  "time_limit_reached st lim (clock w (reads s)) \<Longrightarrow>
   crawl_links self w st lim u (l # ls) s =
     Some (Returned, log_event (Check True) (snd (date_now w s)))"
  by (simp add: date_now_def)

text \<open>
  Claim C8, as the code has it. The time limit is only looked at in checks between
  fetches, and every check reads the clock anew. In the log of every run each fetch
  stands right after a check that found the limit not reached. A fetch is not cut short:
  every fetch that gives a page has its record, whatever the clock reads afterwards.
  A check that finds the limit reached makes the call of \<open>crawl\<close> that made it return
  at once, without the fetch it guards or without the remaining links of its loop, so the
  event after it is again a check. When the readings of the clock never go down, nothing
  but checks that find the limit reached follows the first of them, and no further fetch
  is started.
\<close>

theorem deadline_is_cooperative:
  assumes "crawlSite fuel w seed lim = Some (res, s)"
  shows "(\<forall>pre u post. trace s = pre @ Fetch u # post \<longrightarrow> (\<exists>pre'. pre = pre' @ [Check False])) \<and>
         (\<forall>pre e post. trace s = pre @ Check True # e # post \<longrightarrow> (\<exists>c. e = Check c)) \<and>
         (monotone_clock w \<longrightarrow>
            (\<forall>pre post. trace s = pre @ Check True # post \<longrightarrow> set post \<subseteq> {Check True})) \<and>
         (\<forall>u \<in> set (fetched (trace s)). \<forall>pd. scrapePageData w u = Some pd \<longrightarrow>
            page_record u pd \<in> set (allData s)) \<and>
         (\<forall>n v t. v \<notin> set (visited t) \<and> time_limit_reached (clock w 0) lim (clock w (reads t)) \<longrightarrow>
            crawl (Suc n) w (clock w 0) lim v t =
              Some (Returned, log_event (Check True) (snd (date_now w t)))) \<and>
         (\<forall>self v l ls t. time_limit_reached (clock w 0) lim (clock w (reads t)) \<longrightarrow>
            crawl_links self w (clock w 0) lim v (l # ls) t =
              Some (Returned, log_event (Check True) (snd (date_now w t))))"
proof -
  from assms obtain r where c: "crawl fuel w (clock w 0) lim seed crawl_init = Some (r, s)"
    by (auto simp: crawlSite_def split: option.splits outcome.splits)
  have "checked_trace (trace crawl_init)"
    by (simp add: crawl_init_def checked_trace_def)
  with crawl_keeps_checked [OF c] have ct: "checked_trace (trace s)"
    by (simp add: keeps_checked_def)
  have "expiry_final (trace s)" if "monotone_clock w"
  proof -
    have "expiry_inv w (clock w 0) lim crawl_init"
      by (simp add: expiry_inv_def crawl_init_def expiry_final_def)
    with crawl_keeps_expiry [OF that c] show ?thesis
      by (simp add: keeps_expiry_def expiry_inv_def)
  qed
  with ct have old:
    "(\<forall>pre u post. trace s = pre @ Fetch u # post \<longrightarrow> (\<exists>pre'. pre = pre' @ [Check False])) \<and>
     (\<forall>pre e post. trace s = pre @ Check True # e # post \<longrightarrow> (\<exists>c. e = Check c)) \<and>
     (monotone_clock w \<longrightarrow>
        (\<forall>pre post. trace s = pre @ Check True # post \<longrightarrow> set post \<subseteq> {Check True}))"
    using checked_trace_fetch [OF ct] checked_trace_expired [OF ct]
    unfolding expiry_final_def by blast
  have "fetches_recorded w crawl_init"
    by (simp add: fetches_recorded_def crawl_init_def)
  with crawl_keeps_recorded [OF c] have "fetches_recorded w s"
    by (simp add: keeps_recorded_def)
  then have rec: "\<forall>u \<in> set (fetched (trace s)). \<forall>pd. scrapePageData w u = Some pd \<longrightarrow>
            page_record u pd \<in> set (allData s)"
    by (simp add: fetches_recorded_def)
  from old rec show ?thesis
    using crawl_stops_at_expiry [where w = w and st = "clock w 0" and lim = lim]
      crawl_links_stops_at_expiry [where w = w and st = "clock w 0" and lim = lim]
    by blast
qed

theorem deadline_is_cooperative_witness:
  "crawlSite 3 ticking_web ''A'' 3 =
     Some (Inr [page_record ''A'' (no_data [''A/B'', ''A/C''])], ticking_final) \<and>
   monotone_clock ticking_web \<and>
   trace ticking_final = [Check False] @ Fetch ''A'' #
     [Check False, Follow ''A'' ''A/B'', Check True, Check True] \<and>
   (\<exists>pre'. [Check False] = pre' @ [Check False]) \<and>
   set [Check True] \<subseteq> {Check True} \<and>
   scrapePageData ticking_web ''A'' = Some (no_data [''A/B'', ''A/C'']) \<and>
   page_record ''A'' (no_data [''A/B'', ''A/C'']) \<in> set (allData ticking_final)"
proof -
  have m: "monotone_clock ticking_web"
    by (simp add: monotone_clock_def ticking_web_def)
  have t: "trace ticking_final = [Check False] @ Fetch ''A'' #
     [Check False, Follow ''A'' ''A/B'', Check True, Check True]"
    by (simp add: ticking_final_def)
  have t': "trace ticking_final = [Check False, Fetch ''A'', Check False, Follow ''A'' ''A/B''] @
     Check True # [Check True]"
    by (simp add: ticking_final_def)
  have p: "scrapePageData ticking_web ''A'' = Some (no_data [''A/B'', ''A/C''])"
    by (simp add: scrapePageData_def ticking_web_def demo_web_def page_def no_data_def)
  have f: "''A'' \<in> set (fetched (trace ticking_final))"
    by (simp add: ticking_final_def)
  from deadline_is_cooperative [OF ticking_run] m t t' ticking_run p f show ?thesis by blast
qed

text \<open>
  The claim as the specification states it fails when the clock is set back during the
  crawl: the check at the entry of the call for B finds the limit reached, the next
  check in the loop of the parent does not, and the remaining sibling link C is followed
  and fetched.
\<close>

theorem fetch_after_observed_expiry:
  "crawlSite 3 back_web ''A'' 2 =
     Some (Inr [page_record ''A'' (no_data [''A/B'', ''A/C'']), page_record ''A/C'' (no_data [])],
           back_final) \<and>
   trace back_final = [Check False, Fetch ''A'', Check False, Follow ''A'' ''A/B''] @
     Check True # [Check False, Follow ''A'' ''A/C'', Check False] @ [Fetch ''A/C''] \<and>
   time_limit_reached (clock back_web 0) 2 (clock back_web 3) \<and>
   \<not> time_limit_reached (clock back_web 0) 2 (clock back_web 4)"
proof -
  have "trace back_final = [Check False, Fetch ''A'', Check False, Follow ''A'' ''A/B''] @
     Check True # [Check False, Follow ''A'' ''A/C'', Check False] @ [Fetch ''A/C'']"
    by (simp add: back_final_def)
  moreover have "time_limit_reached (clock back_web 0) 2 (clock back_web 3)"
    and "\<not> time_limit_reached (clock back_web 0) 2 (clock back_web 4)"
    by (simp_all add: time_limit_reached_def back_web_def)
  ultimately show ?thesis using back_run by blast
qed

text \<open>
  Claim C6. With a time limit of 0 and a clock that has not gone back since the start,
  or with the limit already reached at the first check, the crawl fetches nothing and
  returns the empty result. When the limit is not yet reached at the first check and is
  reached at the next one, exactly the seed is fetched and no link is followed. In both
  cases there is no fetch beyond the seed, and the crawl returns with any recursion
  depth of at least one.
\<close>

theorem crawl_with_expired_deadline:
  "((lim = 0 \<and> clock w 0 \<le> clock w 1) \<or> time_limit_reached (clock w 0) lim (clock w 1) \<longrightarrow>
      crawlSite (Suc fuel) w seed lim =
        Some (Inr [], \<lparr>visited = [], allData = [], reads = 2, trace = [Check True]\<rparr>)) \<and>
   (\<not> time_limit_reached (clock w 0) lim (clock w 1) \<and> time_limit_reached (clock w 0) lim (clock w 2) \<longrightarrow>
      (\<exists>res s. crawlSite (Suc fuel) w seed lim = Some (res, s) \<and> visited s = [seed] \<and>
         fetched (trace s) = [seed] \<and> (\<forall>p l. Follow p l \<notin> set (trace s))))"
proof (intro conjI impI)
  assume "(lim = 0 \<and> clock w 0 \<le> clock w 1) \<or> time_limit_reached (clock w 0) lim (clock w 1)"
  then have "time_limit_reached (clock w 0) lim (clock w 1)"
    by (auto simp: time_limit_reached_def)
  then show "crawlSite (Suc fuel) w seed lim =
        Some (Inr [], \<lparr>visited = [], allData = [], reads = 2, trace = [Check True]\<rparr>)"
    by (simp add: crawlSite_def crawl_init_def date_now_def log_event_def)
next
  assume a: "\<not> time_limit_reached (clock w 0) lim (clock w 1) \<and>
             time_limit_reached (clock w 0) lim (clock w 2)"
  show "\<exists>res s. crawlSite (Suc fuel) w seed lim = Some (res, s) \<and> visited s = [seed] \<and>
         fetched (trace s) = [seed] \<and> (\<forall>p l. Follow p l \<notin> set (trace s))"
  proof (cases "scrapePageData w seed")
    case None
    with a show ?thesis
      by (simp add: crawlSite_def crawl_init_def date_now_def log_event_def mark_visited_def
          set_add_def)
  next
    case (Some pd)
    have 2: "Suc (Suc 0) = 2" by simp
    show ?thesis
    proof (cases "links pd")
      case Nil
      with a Some show ?thesis
        by (simp add: crawlSite_def crawl_init_def date_now_def log_event_def mark_visited_def
            set_add_def push_record_def)
    next
      case (Cons l ls)
      with a Some show ?thesis
        by (simp add: crawlSite_def crawl_init_def date_now_def log_event_def mark_visited_def
            set_add_def push_record_def 2)
    qed
  qed
qed

theorem crawl_with_expired_deadline_witness:
  "crawlSite (Suc 0) demo_web ''A'' 0 =
     Some (Inr [], \<lparr>visited = [], allData = [], reads = 2, trace = [Check True]\<rparr>) \<and>
   (\<exists>res s. crawlSite (Suc 0) ticking_web ''A'' 2 = Some (res, s) \<and> visited s = [''A''] \<and>
      fetched (trace s) = [''A''] \<and> (\<forall>p l. Follow p l \<notin> set (trace s)))"
  using crawl_with_expired_deadline [where lim = 0 and w = demo_web and fuel = 0 and seed = "''A''"]
    crawl_with_expired_deadline [where lim = 2 and w = ticking_web and fuel = 0 and seed = "''A''"]
  by (simp add: demo_web_def ticking_web_def time_limit_reached_def)

section \<open>Proofs: the filter pass\<close>

lemma new_Set_snoc: "new_Set (xs @ [x]) = set_add x (new_Set xs)"
  by (simp add: new_Set_def)

lemma new_Set_Nil [simp]: "new_Set [] = []"
  by (simp add: new_Set_def)

lemma set_new_Set [simp]: "set (new_Set xs) = set xs"
  by (induction xs rule: rev_induct) (auto simp: new_Set_snoc)

lemma distinct_new_Set [simp]: "distinct (new_Set xs)"
  by (induction xs rule: rev_induct) (auto simp: new_Set_snoc)

lemma new_Set_distinct: "distinct xs \<Longrightarrow> new_Set xs = xs"
  by (induction xs rule: rev_induct) (auto simp: new_Set_snoc set_add_def)

lemma new_Set_first_occurrences:
  "new_Set xs = map (nth xs) (filter (\<lambda>i. xs ! i \<notin> set (take i xs)) [0..<length xs])"
proof (induction xs rule: rev_induct)
  case Nil
  then show ?case by simp
next
  case (snoc x xs)
  let ?P = "\<lambda>i. xs ! i \<notin> set (take i xs)"
  let ?P' = "\<lambda>i. (xs @ [x]) ! i \<notin> set (take i (xs @ [x]))"
  have f: "filter ?P' [0..<length xs] = filter ?P [0..<length xs]"
    by (rule filter_cong) (auto simp: nth_append)
  have m: "map (nth (xs @ [x])) (filter ?P [0..<length xs]) = map (nth xs) (filter ?P [0..<length xs])"
    by (rule map_cong) (auto simp: nth_append)
  have "map (nth (xs @ [x])) (filter ?P' [0..<length (xs @ [x])])
        = map (nth (xs @ [x])) (filter ?P' [0..<length xs]) @ (if x \<in> set xs then [] else [x])"
    by simp
  also have "\<dots> = new_Set xs @ (if x \<in> set xs then [] else [x])"
    by (simp only: f m snoc.IH)
  also have "\<dots> = new_Set (xs @ [x])"
    by (simp add: new_Set_snoc set_add_def)
  finally show ?case by simp
qed

lemma space_is_ws [simp]: "is_white_space 0x20"
  by (simp add: is_white_space_def)

lemma collapse_ws_spaces: "c \<in> set (collapse_ws cs) \<Longrightarrow> is_white_space c \<Longrightarrow> c = 0x20"
  by (induction cs rule: collapse_ws.induct) (auto split: if_splits)

lemma hd_dropWhile_collapse:
  "collapse_ws (dropWhile is_white_space cs) \<noteq> [] \<Longrightarrow>
   \<not> is_white_space (hd (collapse_ws (dropWhile is_white_space cs)))"
proof -
  assume ne: "collapse_ws (dropWhile is_white_space cs) \<noteq> []"
  show ?thesis
  proof (cases "dropWhile is_white_space cs")
    case Nil
    with ne show ?thesis by (simp only: collapse_ws.simps)
  next
    case (Cons a list)
    then have "\<not> is_white_space a" by (simp add: dropWhile_eq_Cons_conv)
    with Cons show ?thesis by simp
  qed
qed

lemma collapse_ws_no_pair: "successively no_ws_pair (collapse_ws cs)"
proof (induction cs rule: collapse_ws.induct)
  case 1
  then show ?case by simp
next
  case (2 c cs)
  show ?case
  proof (cases "is_white_space c")
    case True
    with 2 hd_dropWhile_collapse [of cs] show ?thesis
      by (cases "collapse_ws (dropWhile is_white_space cs)") (auto simp: no_ws_pair_def)
  next
    case False
    with 2 show ?thesis
      by (cases "collapse_ws cs") (auto simp: no_ws_pair_def)
  qed
qed

lemma collapse_ws_fixed:
  "successively no_ws_pair cs \<Longrightarrow> \<forall>c \<in> set cs. is_white_space c \<longrightarrow> c = 0x20 \<Longrightarrow>
   collapse_ws cs = cs"
proof (induction cs)
  case Nil
  then show ?case by simp
next
  case (Cons c cs)
  then have "dropWhile is_white_space cs = cs" if "is_white_space c"
    using that by (cases cs) (auto simp: no_ws_pair_def)
  with Cons show ?case
    by (cases cs) auto
qed

lemma collapse_ws_content:
  "filter (\<lambda>c. \<not> is_white_space c) (collapse_ws cs) = filter (\<lambda>c. \<not> is_white_space c) cs"
proof (induction cs rule: collapse_ws.induct)
  case 1
  then show ?case by simp
next
  case (2 c cs)
  have "filter (\<lambda>c. \<not> is_white_space c) (dropWhile is_white_space cs)
        = filter (\<lambda>c. \<not> is_white_space c) cs"
    by (induction cs) auto
  with 2 show ?case by auto
qed

lemma dropWhile_fixed: "xs = [] \<or> \<not> P (hd xs) \<Longrightarrow> dropWhile P xs = xs"
  by (cases xs) auto

lemma hd_dropWhile_not: "dropWhile P xs \<noteq> [] \<Longrightarrow> \<not> P (hd (dropWhile P xs))"
  by (metis hd_dropWhile)

lemma trim_Nil_or_ends:
  "trim cs = [] \<or> (\<not> is_white_space (hd (trim cs)) \<and> \<not> is_white_space (last (trim cs)))"
proof (cases "trim cs = []")
  case True
  then show ?thesis by simp
next
  case False
  let ?a = "dropWhile is_white_space cs"
  let ?b = "dropWhile is_white_space (rev ?a)"
  from False have b: "?b \<noteq> []" by (simp add: trim_def)
  have a: "?a \<noteq> []"
  proof
    assume "?a = []"
    then have "?b = []" by (simp only: rev.simps dropWhile.simps)
    with b show False by simp
  qed
  have "\<not> is_white_space (hd ?b)" using b by (rule hd_dropWhile_not)
  then have l: "\<not> is_white_space (last (trim cs))"
    using b by (simp add: trim_def last_rev)
  have "\<not> is_white_space (hd ?a)" using a by (rule hd_dropWhile_not)
  moreover have "hd (trim cs) = hd ?a"
  proof -
    have "\<not> is_white_space (last (rev ?a)) " using a \<open>\<not> is_white_space (hd ?a)\<close> by (simp add: last_rev)
    obtain x xs where ax: "?a = x # xs" using a by (cases ?a) auto
    have "\<exists>ys. ?b = ys @ [x]"
      using \<open>\<not> is_white_space (hd ?a)\<close> by (simp add: ax dropWhile_append3)
    then obtain ys where "?b = ys @ [x]" ..
    then show ?thesis by (simp add: trim_def ax)
  qed
  ultimately show ?thesis using l by simp
qed

lemma trim_fixed:
  assumes "cs = [] \<or> (\<not> is_white_space (hd cs) \<and> \<not> is_white_space (last cs))"
  shows "trim cs = cs"
proof (cases "cs = []")
  case True
  then show ?thesis by (simp add: trim_def)
next
  case False
  with assms have h: "\<not> is_white_space (hd cs)" and l: "\<not> is_white_space (last cs)" by auto
  from False h have 1: "dropWhile is_white_space cs = cs" by (simp add: dropWhile_fixed)
  from False l have 2: "dropWhile is_white_space (rev cs) = rev cs"
    by (intro dropWhile_fixed) (simp add: hd_rev)
  show ?thesis by (simp add: trim_def 1 2)
qed

lemma successively_dropWhile: "successively R xs \<Longrightarrow> successively R (dropWhile P xs)"
  by (induction xs) (auto simp: successively_Cons)

lemma set_trim: "set (trim cs) \<subseteq> set cs"
  by (auto simp: trim_def dest!: set_dropWhileD)

lemma no_ws_pair_sym: "no_ws_pair a b = no_ws_pair b a"
  by (auto simp: no_ws_pair_def)

lemma successively_no_ws_pair_rev:
  "successively no_ws_pair (rev cs) = successively no_ws_pair cs"
proof -
  have "successively (\<lambda>x y. no_ws_pair y x) cs = successively no_ws_pair cs"
    by (rule successively_cong) (auto simp: no_ws_pair_def)
  then show ?thesis by simp
qed

lemma successively_trim:
  assumes "successively no_ws_pair cs"
  shows "successively no_ws_pair (trim cs)"
  unfolding trim_def successively_no_ws_pair_rev
  by (intro successively_dropWhile, subst successively_no_ws_pair_rev)
     (intro successively_dropWhile assms)

lemma trim_content:
  "filter (\<lambda>c. \<not> is_white_space c) (trim cs) = filter (\<lambda>c. \<not> is_white_space c) cs"
proof -
  have d: "filter (\<lambda>c. \<not> is_white_space c) (dropWhile is_white_space xs)
           = filter (\<lambda>c. \<not> is_white_space c) xs" for xs
    by (induction xs) auto
  show ?thesis by (simp add: trim_def d flip: rev_filter)
qed

lemma clean_text_filter: "clean_text (trim (collapse_ws cs))"
  unfolding clean_text_def
  using collapse_ws_spaces set_trim [of "collapse_ws cs"] trim_Nil_or_ends [of "collapse_ws cs"]
    successively_trim [OF collapse_ws_no_pair [of cs]]
  by blast

lemma clean_text_fixed: "clean_text t \<Longrightarrow> trim (collapse_ws t) = t"
  by (simp add: clean_text_def collapse_ws_fixed trim_fixed)

text \<open>
  The cleaned text is the words of the text with single spaces between them.
\<close>

lemma trim_rtrim: "trim cs = rtrim (dropWhile is_white_space cs)"
  by (simp add: trim_def rtrim_def)

lemma words_nonempty: "w \<in> set (words_of t) \<Longrightarrow> w \<noteq> []"
  by (induction t rule: words_of.induct) (auto split: if_splits)

lemma join_words_Nil_iff: "\<forall>w \<in> set ws. w \<noteq> [] \<Longrightarrow> join_words ws = [] \<longleftrightarrow> ws = []"
  by (induction ws rule: join_words.induct) auto

lemma join_words_Cons: "join_words (w # ws) = (if ws = [] then w else w @ 0x20 # join_words ws)"
  by (cases ws) auto

lemma collapse_ws_word: "\<forall>c \<in> set w. \<not> is_white_space c \<Longrightarrow> collapse_ws (w @ t) = w @ collapse_ws t"
  by (induction w) auto

lemma rtrim_word:
  assumes "w \<noteq> []" and "\<not> is_white_space (last w)"
  shows "rtrim (w @ cs) = w @ rtrim cs"
proof (cases "\<forall>c \<in> set cs. is_white_space c")
  case True
  then have "dropWhile is_white_space (rev cs @ rev w) = dropWhile is_white_space (rev w)"
    by (intro dropWhile_append2) auto
  moreover have "dropWhile is_white_space (rev w) = rev w"
    using assms by (cases "rev w") (auto simp: last_rev hd_rev)
  moreover have "dropWhile is_white_space (rev cs) = []" using True by simp
  ultimately show ?thesis by (simp add: rtrim_def)
next
  case False
  then obtain x where "x \<in> set (rev cs)" and "\<not> is_white_space x" by auto
  then have "dropWhile is_white_space (rev cs @ rev w) = dropWhile is_white_space (rev cs) @ rev w"
    by (rule dropWhile_append1)
  then show ?thesis by (simp add: rtrim_def)
qed

lemma rtrim_space:
  assumes "z = [] \<or> \<not> is_white_space (hd z)"
  shows "rtrim (0x20 # z) = (if rtrim z = [] then [] else 0x20 # rtrim z)"
proof (cases "z = []")
  case True
  then show ?thesis by (simp add: rtrim_def)
next
  case False
  with assms have h: "\<not> is_white_space (hd z)" by simp
  from False have "hd z \<in> set (rev z)" by simp
  with h have d: "dropWhile is_white_space (rev z @ [0x20]) = dropWhile is_white_space (rev z) @ [0x20]"
    by (intro dropWhile_append1) auto
  from False h have "dropWhile is_white_space (rev z) \<noteq> []"
    using \<open>hd z \<in> set (rev z)\<close> by (auto simp: dropWhile_eq_Nil_conv)
  with d show ?thesis by (simp add: rtrim_def)
qed

lemma collapse_head:
  "collapse_ws (dropWhile is_white_space cs) = [] \<or>
   \<not> is_white_space (hd (collapse_ws (dropWhile is_white_space cs)))"
proof (cases "dropWhile is_white_space cs")
  case Nil
  then show ?thesis by (simp only: collapse_ws.simps) simp
next
  case (Cons a list)
  then have "\<not> is_white_space a" by (simp add: dropWhile_eq_Cons_conv)
  with Cons show ?thesis by simp
qed

lemma clean_drop_ws: "trim (collapse_ws (dropWhile is_white_space cs)) = trim (collapse_ws cs)"
proof (induction cs)
  case Nil
  then show ?case by simp
next
  case (Cons c cs)
  show ?case
  proof (cases "is_white_space c")
    case True
    then have "trim (collapse_ws (c # cs)) = trim (collapse_ws (dropWhile is_white_space cs))"
      by (simp add: trim_def)
    with True show ?thesis by simp
  next
    case False
    then show ?thesis by simp
  qed
qed

lemma clean_ws_Cons: "is_white_space c \<Longrightarrow> trim (collapse_ws (c # cs)) = trim (collapse_ws cs)"
  using clean_drop_ws [of "c # cs"] clean_drop_ws [of cs] by simp

lemma clean_word:
  assumes w: "w \<noteq> []" "\<forall>c \<in> set w. \<not> is_white_space c"
    and t: "t = [] \<or> is_white_space (hd t)"
  shows "trim (collapse_ws (w @ t)) =
           (if trim (collapse_ws t) = [] then w else w @ 0x20 # trim (collapse_ws t))"
proof -
  from w have hw: "\<not> is_white_space (hd w)" and lw: "\<not> is_white_space (last w)" by auto
  have "trim (collapse_ws (w @ t)) = rtrim (dropWhile is_white_space (w @ collapse_ws t))"
    using w by (simp add: collapse_ws_word trim_rtrim)
  also have "dropWhile is_white_space (w @ collapse_ws t) = w @ collapse_ws t"
    using w hw by (cases w) auto
  also have "rtrim (w @ collapse_ws t) = w @ rtrim (collapse_ws t)"
    using w(1) lw by (rule rtrim_word)
  finally have 1: "trim (collapse_ws (w @ t)) = w @ rtrim (collapse_ws t)" .
  show ?thesis
  proof (cases t)
    case Nil
    with 1 show ?thesis by (simp add: rtrim_def trim_def)
  next
    case (Cons c cs)
    with t have c: "is_white_space c" by simp
    let ?z = "collapse_ws (dropWhile is_white_space cs)"
    have z: "?z = [] \<or> \<not> is_white_space (hd ?z)" by (rule collapse_head)
    then have dz: "dropWhile is_white_space ?z = ?z" by (cases ?z) auto
    have "trim (collapse_ws t) = trim ?z"
      using c Cons clean_ws_Cons [OF c, of cs] clean_drop_ws [of cs] by simp
    then have 2: "trim (collapse_ws t) = rtrim ?z" by (simp add: trim_rtrim dz)
    have "rtrim (collapse_ws t) = rtrim (0x20 # ?z)" using c Cons by simp
    also have "\<dots> = (if rtrim ?z = [] then [] else 0x20 # rtrim ?z)"
      using z by (rule rtrim_space)
    finally show ?thesis using 1 2 by simp
  qed
qed

lemma clean_is_joined_words: "trim (collapse_ws t) = join_words (words_of t)"
proof (induction t rule: words_of.induct)
  case 1
  then show ?case by (simp add: trim_def)
next
  case (2 c cs)
  show ?case
  proof (cases "is_white_space c")
    case True
    with 2 have "trim (collapse_ws cs) = join_words (words_of cs)" by simp
    with True show ?thesis by (simp only: clean_ws_Cons words_of.simps if_True)
  next
    case False
    let ?w = "c # takeWhile (\<lambda>x. \<not> is_white_space x) cs"
    let ?t = "dropWhile (\<lambda>x. \<not> is_white_space x) cs"
    have split: "c # cs = ?w @ ?t" by simp
    have w: "?w \<noteq> []" "\<forall>x \<in> set ?w. \<not> is_white_space x"
      using False by (auto dest: set_takeWhileD)
    have t: "?t = [] \<or> is_white_space (hd ?t)"
      using hd_dropWhile [of "\<lambda>x. \<not> is_white_space x" cs] by auto
    have IH: "trim (collapse_ws ?t) = join_words (words_of ?t)" using 2(2) False by simp
    have ne: "join_words (words_of ?t) = [] \<longleftrightarrow> words_of ?t = []"
      by (rule join_words_Nil_iff) (auto dest: words_nonempty)
    have "trim (collapse_ws (c # cs)) = trim (collapse_ws (?w @ ?t))"
      by (simp only: split [symmetric])
    also have "\<dots> = (if trim (collapse_ws ?t) = [] then ?w else ?w @ 0x20 # trim (collapse_ws ?t))"
      using w t by (rule clean_word)
    also have "\<dots> = join_words (?w # words_of ?t)"
      by (simp only: IH ne join_words_Cons)
    also have "?w # words_of ?t = words_of (c # cs)" using False by simp
    finally show ?thesis .
  qed
qed

text \<open>
  The words are what the specification calls them: white space before a text adds no
  word, and a run without white space that ends the text or stands before white space is
  one word.
\<close>

lemma words_of_ws: "\<forall>c \<in> set g. is_white_space c \<Longrightarrow> words_of (g @ t) = words_of t"
  by (induction g) auto

lemma words_of_word:
  assumes "w \<noteq> []" and "\<forall>c \<in> set w. \<not> is_white_space c" and "t = [] \<or> is_white_space (hd t)"
  shows "words_of (w @ t) = w # words_of t"
proof -
  obtain c cs where w: "w = c # cs" using assms(1) by (cases w) auto
  with assms(2) have c: "\<not> is_white_space c" and cs: "\<forall>x \<in> set cs. \<not> is_white_space x" by auto
  have "takeWhile (\<lambda>x. \<not> is_white_space x) (cs @ t) = cs"
    using cs assms(3) by (cases t) (auto simp: takeWhile_append2 takeWhile_eq_all_conv)
  moreover have "dropWhile (\<lambda>x. \<not> is_white_space x) (cs @ t) = t"
    using cs assms(3) by (cases t) (auto simp: dropWhile_append2)
  ultimately show ?thesis using c w by simp
qed

text \<open>
  Claim C7. Filtering the result of \<open>filterData\<close> again changes nothing. The links and
  the images of the result are the elements of the input at the positions of their first
  occurrence, in the order of these positions. The text of the result is the words of
  the input text, its maximal runs without white space, with exactly one space between
  two neighbours: every run of white space between words has become one space and the
  white space at both ends is gone. So the text has no white space but single spaces
  between other code units, none at either end, and the same code units that are not
  white space, in the same order.
\<close>

theorem filterData_idempotent:
  "filterData (filterData d) = filterData d \<and>
   links (filterData d) = map (nth (links d)) (filter (\<lambda>i. links d ! i \<notin> set (take i (links d))) [0..<length (links d)]) \<and>
   images (filterData d) = map (nth (images d)) (filter (\<lambda>i. images d ! i \<notin> set (take i (images d))) [0..<length (images d)]) \<and>
   clean_text (textContent (filterData d)) \<and>
   filter (\<lambda>c. \<not> is_white_space c) (textContent (filterData d)) = filter (\<lambda>c. \<not> is_white_space c) (textContent d) \<and>
   textContent (filterData d) = join_words (words_of (textContent d)) \<and>
   htmlContent (filterData d) = htmlContent d"
proof -
  have "filterData (filterData d) = filterData d"
    by (simp add: filterData_def new_Set_distinct clean_text_fixed [OF clean_text_filter])
  moreover have "clean_text (textContent (filterData d))"
    by (simp add: filterData_def clean_text_filter)
  moreover have "filter (\<lambda>c. \<not> is_white_space c) (textContent (filterData d)) = filter (\<lambda>c. \<not> is_white_space c) (textContent d)"
    by (simp add: filterData_def trim_content collapse_ws_content)
  moreover have "links (filterData d) = map (nth (links d)) (filter (\<lambda>i. links d ! i \<notin> set (take i (links d))) [0..<length (links d)])"
    unfolding filterData_def by (simp add: new_Set_first_occurrences [symmetric])
  moreover have "images (filterData d) = map (nth (images d)) (filter (\<lambda>i. images d ! i \<notin> set (take i (images d))) [0..<length (images d)])"
    unfolding filterData_def by (simp add: new_Set_first_occurrences [symmetric])
  moreover have "textContent (filterData d) = join_words (words_of (textContent d))"
    by (simp add: filterData_def clean_is_joined_words)
  moreover have "htmlContent (filterData d) = htmlContent d"
    by (simp add: filterData_def)
  ultimately show ?thesis by blast
qed

theorem filterData_idempotent_witness:
  "filterData (filterData untidy_page) = filterData untidy_page \<and>
   links (filterData untidy_page) = [''b'', ''a'', ''c''] \<and>
   images (filterData untidy_page) = [''i''] \<and>
   words_of (textContent untidy_page) = [[0x41], [0x42]] \<and>
   textContent (filterData untidy_page) = [0x41, 0x20, 0x42] \<and>
   clean_text (textContent (filterData untidy_page))"
proof -
  have "links (filterData untidy_page) = [''b'', ''a'', ''c'']"
    and "images (filterData untidy_page) = [''i'']"
    by (simp_all add: filterData_def untidy_page_def new_Set_def set_add_def)
  moreover have w: "words_of (textContent untidy_page) = [[0x41], [0x42]]"
    by (simp add: untidy_page_def is_white_space_def)
  moreover have "textContent (filterData untidy_page) = [0x41, 0x20, 0x42]"
    using filterData_idempotent [of untidy_page] by (simp add: w)
  ultimately show ?thesis using filterData_idempotent [of untidy_page] by blast
qed

section \<open>Proofs: the command-line program of the crawler\<close>



section \<open>Proofs: the typed-site scraper\<close>

lemma scrape_items_eq:
  "scrape_items site type ls (items, navigated) =
     (items @ List.map_filter (scrape_item site type) ls, navigated @ ls)"
  by (induction ls arbitrary: items navigated) (auto simp: List.map_filter_simps split: option.splits)

lemma take_min_length: "take (min n (length xs)) xs = take n xs"
  by (cases "n \<le> length xs") (simp_all add: min_def)

lemma length_map_filter_le: "length (List.map_filter f xs) \<le> length xs"
  by (simp add: List.map_filter_def)

lemma js_slice_nonneg:
  assumes "0 \<le> off" and "0 \<le> lim"
  shows "js_slice xs (Num off) (js_add (Num off) (Num lim)) = take (nat lim) (drop (nat off) xs)"
proof -
  have "take (min (nat (off + lim)) (length xs) - min (nat off) (length xs)) (drop (min (nat off) (length xs)) xs)
        = take (nat lim) (drop (nat off) xs)"
  proof (cases "nat off \<le> length xs")
    case True
    then have "min (nat (off + lim)) (length xs) - nat off = min (nat lim) (length xs - nat off)"
      using assms by (simp add: nat_add_distrib min_def)
    moreover have "take (min (nat lim) (length (drop (nat off) xs))) (drop (nat off) xs)
                   = take (nat lim) (drop (nat off) xs)"
      by (rule take_min_length)
    ultimately show ?thesis using True by (simp add: min_absorb1)
  next
    case False
    then show ?thesis by simp
  qed
  with assms show ?thesis
    by (simp add: js_slice_def js_add_def to_integer_def relative_index_def Let_def)
qed

lemma set_getRelevantLinks: "set (getRelevantLinks hs type) = {h \<in> set hs. relevant type h}"
  by (auto simp: getRelevantLinks_def relevant_def)

lemma distinct_getRelevantLinks: "distinct (getRelevantLinks hs type)"
  by (simp add: getRelevantLinks_def)

text \<open>
  Claim C10, as the code has it. For a limit and an offset that are whole numbers and
  not negative, every run of \<open>scrapePage\<close> that returns an output (the one of the
  server never does, the one of the command-line program does) has these
  fields: \<open>total\<close> is the number of distinct relevant links of the seed page, \<open>data\<close>
  holds the items of the links at the positions from \<open>offset\<close> up to \<open>offset + limit\<close>
  that could be scraped, in that order, and \<open>count\<close> is the length of \<open>data\<close>, at most
  \<open>limit\<close> and at most \<open>total\<close>.
\<close>

theorem pagination_fields:
  assumes "returned (scrapePage site u type timeLimit (Num lim) (Num off)) = Inr (Some out) \<or>
           returned (scrapePage_api site u type timeLimit (Num lim) (Num off)) = Inr (Some out)"
    and "0 \<le> lim" and "0 \<le> off"
  shows "total_links (pagination out) = card {h \<in> set (hrefs site u). relevant type h} \<and>
         distinct (getRelevantLinks (hrefs site u) type) \<and>
         set (getRelevantLinks (hrefs site u) type) = {h \<in> set (hrefs site u). relevant type h} \<and>
         data out = List.map_filter (scrape_item site type)
                      (take (nat lim) (drop (nat off) (getRelevantLinks (hrefs site u) type))) \<and>
         count (pagination out) = length (data out) \<and>
         int (count (pagination out)) \<le> lim \<and>
         count (pagination out) \<le> total_links (pagination out)"
proof -
  let ?ls = "getRelevantLinks (hrefs site u) type"
  let ?page = "take (nat lim) (drop (nat off) ?ls)"
  from assms(1) have "fst (scrapePage_try site u type timeLimit (Num lim) (Num off)) = Some out"
    by (auto simp: scrapePage_def scrapePage_api_def split: if_splits prod.splits option.splits)
  then have out: "out = \<lparr>websiteType = type,
      pagination = \<lparr>limit = Num lim, offset = Num off,
                    count = length (List.map_filter (scrape_item site type) ?page),
                    total_links = length ?ls\<rparr>,
      data = List.map_filter (scrape_item site type) ?page\<rparr>"
    by (auto simp: scrapePage_try_def Let_def scrape_items_eq js_slice_nonneg [OF assms(3,2)]
        split: if_splits)
  have len: "length (List.map_filter (scrape_item site type) ?page) \<le> length ?page"
    by (rule length_map_filter_le)
  have total: "length ?ls = card {h \<in> set (hrefs site u). relevant type h}"
    using distinct_card [OF distinct_getRelevantLinks [of "hrefs site u" type]]
    by (simp add: set_getRelevantLinks)
  have "length ?page \<le> nat lim" by simp
  with len have "length (List.map_filter (scrape_item site type) ?page) \<le> nat lim"
    by (rule order_trans)
  with assms(2) have c1: "int (length (List.map_filter (scrape_item site type) ?page)) \<le> lim"
    by (simp add: le_nat_iff)
  have "length ?page \<le> length ?ls" by simp
  with len have c2: "length (List.map_filter (scrape_item site type) ?page) \<le> length ?ls"
    by (rule order_trans)
  have "total_links (pagination out) = card {h \<in> set (hrefs site u). relevant type h}"
    by (simp only: out total [symmetric]) simp
  moreover have "data out = List.map_filter (scrape_item site type) ?page"
    by (simp add: out)
  moreover have "count (pagination out) = length (data out)"
    by (simp add: out)
  moreover have "int (count (pagination out)) \<le> lim"
    using c1 by (simp add: out)
  moreover have "count (pagination out) \<le> total_links (pagination out)"
    using c2 by (simp add: out)
  ultimately show ?thesis
    using distinct_getRelevantLinks [of "hrefs site u" type]
      set_getRelevantLinks [of "hrefs site u" type] by blast
qed

theorem pagination_fields_witness:
  "returned (scrapePage news_site ''https://n.com'' ''news'' (Num 5) (Num 2) (Num 1)) =
     Inr (Some paged_output) \<and>
   data paged_output = [''https://n.com/news/2'', ''https://n.com/news/3''] \<and>
   count (pagination paged_output) = length (data paged_output) \<and>
   int (count (pagination paged_output)) \<le> 2 \<and>
   count (pagination paged_output) \<le> total_links (pagination paged_output)"
proof -
  have r: "returned (scrapePage news_site ''https://n.com'' ''news'' (Num 5) (Num 2) (Num 1)) =
     Inr (Some paged_output)"
    by code_simp
  have d: "data paged_output = [''https://n.com/news/2'', ''https://n.com/news/3'']"
    by (simp add: paged_output_def)
  from pagination_fields [OF disjI1 [OF r] zero_le_numeral zero_le_one]
  have "count (pagination paged_output) = length (data paged_output)"
    and "int (count (pagination paged_output)) \<le> 2"
    and "count (pagination paged_output) \<le> total_links (pagination paged_output)"
    by blast+
  with r d show ?thesis by blast
qed

text \<open>
  The claim as stated fails for a negative limit, which \<open>slice\<close> counts from the end:
  with three links, offset 0 and limit -1, two items are returned.
\<close>

theorem negative_limit_count:
  "returned (scrapePage news_site ''https://n.com'' ''news'' (Num 5) (Num (- 1)) (Num 0)) =
     Inr (Some negative_limit_output) \<and>
   count (pagination negative_limit_output) = 2 \<and>
   to_integer (limit (pagination negative_limit_output)) = - 1 \<and>
   \<not> int (count (pagination negative_limit_output))
       \<le> to_integer (limit (pagination negative_limit_output))"
proof -
  have "returned (scrapePage news_site ''https://n.com'' ''news'' (Num 5) (Num (- 1)) (Num 0)) =
     Inr (Some negative_limit_output)"
    by code_simp
  then show ?thesis by (simp add: negative_limit_output_def to_integer_def)
qed

text \<open>
  Claim C5, as the code has it. The route answers with status 400, before the browser is
  started and before any page is fetched, when \<open>url\<close>, \<open>websiteType\<close> or \<open>timeLimit\<close> is
  missing or falsy (an empty URL, a time limit of 0), or when \<open>websiteType\<close> is a string
  that is none of the three types after lower-casing.
\<close>

theorem route_rejects_missing_or_unknown:
  assumes "\<not> truthy (body ''url'') \<or> \<not> truthy (body ''websiteType'') \<or> \<not> truthy (body ''timeLimit'') \<or>
           (\<exists>t. body ''websiteType'' = JString t \<and> toLowerCase t \<notin> set WEBSITE_TYPES)"
  shows "scrape_route site body =
           \<lparr>status = Some 400, sent = None, fetches = [], browser_started = False\<rparr>"
  using assms by (auto simp: scrape_route_def respond_def Let_def)

theorem route_rejects_missing_or_unknown_witness:
  "scrape_route news_site (request (JString ''https://n.com'') (JString ''news'') (JNumber 0)) =
     \<lparr>status = Some 400, sent = None, fetches = [], browser_started = False\<rparr> \<and>
   scrape_route news_site (request (JString ''https://n.com'') (JString ''blog'') (JNumber 5)) =
     \<lparr>status = Some 400, sent = None, fetches = [], browser_started = False\<rparr>"
proof -
  have "\<not> truthy (request (JString ''https://n.com'') (JString ''news'') (JNumber 0) ''timeLimit'')"
    by (simp add: request_def truthy_def)
  moreover have "request (JString ''https://n.com'') (JString ''blog'') (JNumber 5) ''websiteType''
      = JString ''blog'' \<and> toLowerCase ''blog'' \<notin> set WEBSITE_TYPES"
    by code_simp
  ultimately show ?thesis
    using route_rejects_missing_or_unknown
      [of "request (JString ''https://n.com'') (JString ''news'') (JNumber 0)" news_site]
      route_rejects_missing_or_unknown
      [of "request (JString ''https://n.com'') (JString ''blog'') (JNumber 5)" news_site]
    by blast
qed

text \<open>
  The claim as stated fails for a URL that is not one: the route does not look at it, the
  browser is started and \<open>page.goto\<close> is called with it, and the failure is answered with
  status 500.
\<close>

theorem bad_url_reaches_fetcher:
  "scrape_route news_site (request (JString ''not a url'') (JString ''news'') (JNumber 5)) =
     \<lparr>status = Some 500, sent = None, fetches = [''not a url''], browser_started = True\<rparr>"
  by code_simp

end
